theory Spec2Isabelle
  imports Complex_Main "HOL-Library.Char_ord" "HOL-Library.List_Lexorder"
begin

section \<open>JSON values as the JavaScript runtime holds them\<close>

text \<open>
  A parsed JSON value. An object is the list of its own properties in the order in which
  JavaScript enumerates them (\<open>Object.keys\<close>, \<open>JSON.stringify\<close>, spread): array-index
  keys first, in ascending numeric order, then every other key in insertion order.
  Strings are sequences of code units below 256. Numbers are the integers (the only
  numbers the chain builder writes are the \<open>idx\<close> counters); \<open>JSON.stringify\<close> prints
  an integer below \<open>10^21\<close> in plain decimal notation.
\<close>

datatype json =
    JNull
  | JBool bool
  | JNum int
  | JStr string
  | JArr "json list"
  | JObj "(string \<times> json) list"

type_synonym jsobject = "(string \<times> json) list"

subsection \<open>Own properties of an ordinary object\<close>

definition is_digit :: "char \<Rightarrow> bool" where
  "is_digit c = (CHR ''0'' \<le> c \<and> c \<le> CHR ''9'')"

definition digit_val :: "char \<Rightarrow> int" where
  "digit_val c = of_char c - 48"

definition int_of_digits :: "string \<Rightarrow> int" where
  "int_of_digits ds = foldl (\<lambda>n c. 10 * n + digit_val c) 0 ds"

text \<open>
  An array index is a canonical numeric string (no sign, no leading zero) whose value is
  at most \<open>2^32 - 2\<close>.
\<close>

definition array_index :: "string \<Rightarrow> int option" where
  "array_index k =
     (if k \<noteq> [] \<and> list_all is_digit k \<and> (k = ''0'' \<or> hd k \<noteq> CHR ''0'')
         \<and> int_of_digits k < 4294967295
      then Some (int_of_digits k) else None)"

text \<open>\<open>obj[k]\<close>: \<open>None\<close> is JavaScript's \<open>undefined\<close>.\<close>

definition obj_get :: "jsobject \<Rightarrow> string \<Rightarrow> json option" where
  "obj_get kvs k = map_of kvs k"

definition obj_keys :: "jsobject \<Rightarrow> string list" where
  "obj_keys kvs = map fst kvs"

fun insert_index :: "int \<Rightarrow> string \<Rightarrow> json \<Rightarrow> jsobject \<Rightarrow> jsobject" where
  "insert_index n k v [] = [(k, v)]"
| "insert_index n k v ((k', v') # kvs) =
     (case array_index k' of
        Some m \<Rightarrow> if m < n then (k', v') # insert_index n k v kvs
                  else (k, v) # (k', v') # kvs
      | None \<Rightarrow> (k, v) # (k', v') # kvs)"

text \<open>
  \<open>CreateDataProperty\<close>, as object literals, spread, rest patterns and \<open>JSON.parse\<close>
  use it: an existing key keeps its place and takes the new value, a new array index is
  put at its numeric place, any other new key goes last.
\<close>

definition obj_define :: "jsobject \<Rightarrow> string \<Rightarrow> json \<Rightarrow> jsobject" where
  "obj_define kvs k v =
     (if k \<in> set (obj_keys kvs) then map (\<lambda>(k', v'). if k' = k then (k', v) else (k', v')) kvs
      else case array_index k of
             Some n \<Rightarrow> insert_index n k v kvs
           | None \<Rightarrow> kvs @ [(k, v)])"

text \<open>
  The assignment \<open>acc[k] = v\<close> on an object made by \<open>{}\<close>: the key \<open>__proto__\<close> reaches
  the prototype setter and creates no own property.
\<close>

definition obj_assign :: "jsobject \<Rightarrow> string \<Rightarrow> json \<Rightarrow> jsobject" where
  "obj_assign acc k v = (if k = ''__proto__'' then acc else obj_define acc k v)"

subsection \<open>\<open>JSON.stringify\<close>\<close>

definition hex_digit :: "int \<Rightarrow> char" where
  "hex_digit n = (if n < 10 then char_of (48 + n) else char_of (87 + n))"

text \<open>\<open>QuoteJSONString\<close> on one code unit.\<close>

definition escape_char :: "char \<Rightarrow> string" where
  "escape_char c =
     (if c = CHR 0x22 then [CHR 0x5C, CHR 0x22]
      else if c = CHR 0x5C then [CHR 0x5C, CHR 0x5C]
      else if c = CHR 0x08 then [CHR 0x5C, CHR ''b'']
      else if c = CHR 0x0C then [CHR 0x5C, CHR ''f'']
      else if c = CHR 0x0A then [CHR 0x5C, CHR ''n'']
      else if c = CHR 0x0D then [CHR 0x5C, CHR ''r'']
      else if c = CHR 0x09 then [CHR 0x5C, CHR ''t'']
      else if (of_char c :: int) < 32
        then [CHR 0x5C, CHR ''u'', CHR ''0'', CHR ''0'',
              hex_digit (of_char c div 16), hex_digit (of_char c mod 16)]
      else [c])"

definition quote :: "string \<Rightarrow> string" where
  "quote s = [CHR 0x22] @ concat (map escape_char s) @ [CHR 0x22]"

text \<open>The decimal digits of a number that is not negative.\<close>

function digits :: "int \<Rightarrow> string" where
  "digits n = (if n < 10 then [char_of (48 + n)] else digits (n div 10) @ [char_of (48 + n mod 10)])"
  by pat_completeness auto
termination
  by (relation "measure nat") auto

declare digits.simps [simp del]

definition show_int :: "int \<Rightarrow> string" where
  "show_int i = (if i < 0 then CHR ''-'' # digits (- i) else digits i)"

fun join :: "string \<Rightarrow> string list \<Rightarrow> string" where
  "join sep [] = []"
| "join sep [x] = x"
| "join sep (x # y # ys) = x @ sep @ join sep (y # ys)"

fun JSON_stringify :: "json \<Rightarrow> string" where
  "JSON_stringify JNull = ''null''"
| "JSON_stringify (JBool b) = (if b then ''true'' else ''false'')"
| "JSON_stringify (JNum i) = show_int i"
| "JSON_stringify (JStr s) = quote s"
| "JSON_stringify (JArr xs) = ''['' @ join '','' (map JSON_stringify xs) @ '']''"
| "JSON_stringify (JObj kvs) =
     ''{'' @ join '','' (map (\<lambda>kv. quote (fst kv) @ '':'' @ JSON_stringify (snd kv)) kvs) @ ''}''"

section \<open>The canonical hasher (\<open>sortObj\<close>, \<open>stable\<close>, \<open>sha256\<close>)\<close>

lemma size_obj_member:
  "(k, v) \<in> set kvs \<Longrightarrow> size v < Suc (size_list (size_prod (\<lambda>_. 0) size) kvs)"
  by (induction kvs) auto

lemma size_arr_member:
  "x \<in> set xs \<Longrightarrow> size (x :: json) < Suc (size_list size xs)"
  by (induction xs) auto

text \<open>
  \<open>sortObj\<close>: scalars are returned as they are, an array is mapped element by element,
  and an object is rebuilt by assigning its sorted keys, one after the other, to a fresh
  object.
\<close>

function (sequential) sortObj :: "json \<Rightarrow> json" where
  "sortObj (JArr xs) = JArr (map sortObj xs)"
| "sortObj (JObj kvs) =
     JObj (foldl (\<lambda>acc k. case obj_get kvs k of
                            Some v \<Rightarrow> obj_assign acc k (sortObj v)
                          | None \<Rightarrow> acc)
                 [] (sort (obj_keys kvs)))"
| "sortObj v = v"
  by pat_completeness auto
termination
proof (relation "measure size", goal_cases)
  case 1
  show ?case by simp
next
  case (2 xs x)
  then show ?case using size_arr_member [of x xs] by simp
next
  case (3 kvs acc k v)
  then have "(k, v) \<in> set kvs"
    by (simp add: obj_get_def map_of_SomeD)
  then show ?case
    using size_obj_member [of k v kvs] by simp
qed

definition stable :: "json \<Rightarrow> string" where
  "stable o' = JSON_stringify (sortObj o')"

text \<open>
  The digest of a structured value. The hash function itself (\<open>sha256\<close>, the hexadecimal
  SHA-256 of a string) is a parameter of the development.
\<close>

definition digest :: "(string \<Rightarrow> string) \<Rightarrow> json \<Rightarrow> string" where
  "digest sha256 v = sha256 (stable v)"

section \<open>The attestation chain builder (\<open>startChain\<close>, \<open>appendRecord\<close>)\<close>

record TaskAttestation =
  run_id :: string
  task_id :: string
  model :: string
  dataset_sha256 :: string
  prompt_sha256 :: string
  code_sha256 :: string
  pass :: bool
  timestamp :: string

text \<open>The object \<open>rec\<close> as the caller's object literal builds it.\<close>

definition rec_obj :: "TaskAttestation \<Rightarrow> jsobject" where
  "rec_obj r =
     [(''run_id'', JStr (run_id r)),
      (''task_id'', JStr (task_id r)),
      (''model'', JStr (model r)),
      (''dataset_sha256'', JStr (dataset_sha256 r)),
      (''prompt_sha256'', JStr (prompt_sha256 r)),
      (''code_sha256'', JStr (code_sha256 r)),
      (''pass'', JBool (pass r)),
      (''timestamp'', JStr (timestamp r))]"

text \<open>A value of type \<open>string | null\<close>.\<close>

definition nullable :: "string option \<Rightarrow> json" where
  "nullable p = (case p of None \<Rightarrow> JNull | Some h \<Rightarrow> JStr h)"

text \<open>The file system: the content of every file that exists.\<close>

type_synonym files = "string \<Rightarrow> string option"

definition writeFileSync :: "files \<Rightarrow> string \<Rightarrow> string \<Rightarrow> files" where
  "writeFileSync fs path d = fs(path \<mapsto> d)"

definition appendFileSync :: "files \<Rightarrow> string \<Rightarrow> string \<Rightarrow> files" where
  "appendFileSync fs path d =
     fs(path \<mapsto> (case fs path of None \<Rightarrow> [] | Some old \<Rightarrow> old) @ d)"

definition startChain :: "files \<Rightarrow> string \<Rightarrow> files" where
  "startChain fs path = writeFileSync fs path []"

text \<open>The hash input \<open>{ ...rec, prevHash }\<close> and the line \<open>{ ...rec, idx, prevHash, hash }\<close>.\<close>

definition contentToHash :: "TaskAttestation \<Rightarrow> string option \<Rightarrow> string" where
  "contentToHash r prevHash = stable (JObj (obj_define (rec_obj r) ''prevHash'' (nullable prevHash)))"

definition chain_line :: "TaskAttestation \<Rightarrow> int \<Rightarrow> string option \<Rightarrow> string \<Rightarrow> json" where
  "chain_line r idx prevHash h =
     JObj (obj_define (obj_define (obj_define (rec_obj r)
            ''idx'' (JNum idx)) ''prevHash'' (nullable prevHash)) ''hash'' (JStr h))"

definition appendRecord ::
  "(string \<Rightarrow> string) \<Rightarrow> files \<Rightarrow> string \<Rightarrow> TaskAttestation \<Rightarrow> string option \<Rightarrow> int
     \<Rightarrow> files \<times> string" where
  "appendRecord sha256 fs path r prevHash idx =
     (let h = sha256 (contentToHash r prevHash);
          line = chain_line r idx prevHash h
      in (appendFileSync fs path (JSON_stringify line @ [CHR 0x0A]), h))"

text \<open>
  The builder's protocol: the first \<open>prevHash\<close> is \<open>null\<close>, every later one is the hash
  the previous call returned, and \<open>idx\<close> counts up from its start value.
\<close>

fun append_all ::
  "(string \<Rightarrow> string) \<Rightarrow> string \<Rightarrow> files \<Rightarrow> string option \<Rightarrow> int \<Rightarrow> TaskAttestation list
     \<Rightarrow> files \<times> string option" where
  "append_all sha256 path fs prevHash idx [] = (fs, prevHash)"
| "append_all sha256 path fs prevHash idx (r # rs) =
     (case appendRecord sha256 fs path r prevHash idx of
        (fs', h) \<Rightarrow> append_all sha256 path fs' (Some h) (idx + 1) rs)"

definition build_chain ::
  "(string \<Rightarrow> string) \<Rightarrow> files \<Rightarrow> string \<Rightarrow> TaskAttestation list \<Rightarrow> files" where
  "build_chain sha256 fs path recs = fst (append_all sha256 path (startChain fs path) None 0 recs)"

section \<open>\<open>JSON.parse\<close>\<close>

text \<open>
  The outcome of a parse that does not return: a \<open>SyntaxError\<close>, or a text whose value
  lies outside the values of type \<open>json\<close> (a number with a fraction or an exponent, an
  escape \<open>\uXXXX\<close> of a code unit above 255).
\<close>

datatype parse_error = SyntaxError | OutsideModel

definition is_json_ws :: "char \<Rightarrow> bool" where
  "is_json_ws c = (c = CHR '' '' \<or> c = CHR 0x09 \<or> c = CHR 0x0A \<or> c = CHR 0x0D)"

definition skip_ws :: "string \<Rightarrow> string" where
  "skip_ws s = dropWhile is_json_ws s"

definition hex_val :: "char \<Rightarrow> int option" where
  "hex_val c =
     (if is_digit c then Some (of_char c - 48)
      else if CHR ''a'' \<le> c \<and> c \<le> CHR ''f'' then Some (of_char c - 87)
      else if CHR ''A'' \<le> c \<and> c \<le> CHR ''F'' then Some (of_char c - 55)
      else None)"

definition hex4 :: "char \<Rightarrow> char \<Rightarrow> char \<Rightarrow> char \<Rightarrow> int option" where
  "hex4 a b c d =
     (case (hex_val a, hex_val b, hex_val c, hex_val d) of
        (Some x, Some y, Some z, Some w) \<Rightarrow> Some (((x * 16 + y) * 16 + z) * 16 + w)
      | _ \<Rightarrow> None)"

definition unescape :: "char \<Rightarrow> char option" where
  "unescape e =
     (if e = CHR 0x22 then Some (CHR 0x22)
      else if e = CHR 0x5C then Some (CHR 0x5C)
      else if e = CHR ''/'' then Some (CHR ''/'')
      else if e = CHR ''b'' then Some (CHR 0x08)
      else if e = CHR ''f'' then Some (CHR 0x0C)
      else if e = CHR ''n'' then Some (CHR 0x0A)
      else if e = CHR ''r'' then Some (CHR 0x0D)
      else if e = CHR ''t'' then Some (CHR 0x09)
      else None)"

text \<open>The characters of a string literal, after its opening quote.\<close>

fun parse_chars :: "string \<Rightarrow> string \<Rightarrow> parse_error + string \<times> string" where
  "parse_chars acc [] = Inl SyntaxError"
| "parse_chars acc [c] = (if c = CHR 0x22 then Inr (acc, []) else Inl SyntaxError)"
| "parse_chars acc (c # e # cs) =
     (if c = CHR 0x22 then Inr (acc, e # cs)
      else if c = CHR 0x5C then
        (if e = CHR ''u'' then
           (case cs of
              h1 # h2 # h3 # h4 # cs' \<Rightarrow>
                (case hex4 h1 h2 h3 h4 of
                   None \<Rightarrow> Inl SyntaxError
                 | Some n \<Rightarrow> if n < 256 then parse_chars (acc @ [char_of n]) cs'
                            else Inl OutsideModel)
            | _ \<Rightarrow> Inl SyntaxError)
         else (case unescape e of
                 None \<Rightarrow> Inl SyntaxError
               | Some c' \<Rightarrow> parse_chars (acc @ [c']) cs))
      else if (of_char c :: int) < 32 then Inl SyntaxError
      else parse_chars (acc @ [c]) (e # cs))"

text \<open>A number literal: only the integers are values of the model.\<close>

definition parse_number :: "string \<Rightarrow> parse_error + json \<times> string" where
  "parse_number s =
     (let neg = (s \<noteq> [] \<and> hd s = CHR ''-'');
          s1 = (if neg then tl s else s);
          ds = takeWhile is_digit s1;
          r = dropWhile is_digit s1
      in if ds = [] then Inl SyntaxError
         else if hd ds = CHR ''0'' \<and> length ds > 1 then Inl SyntaxError
         else if r \<noteq> [] \<and> (hd r = CHR ''.'' \<or> hd r = CHR ''e'' \<or> hd r = CHR ''E'')
           then Inl OutsideModel
         else Inr (JNum (if neg then - int_of_digits ds else int_of_digits ds), r))"

definition parse_literal :: "string \<Rightarrow> json \<Rightarrow> string \<Rightarrow> parse_error + json \<times> string" where
  "parse_literal lit v s =
     (if take (length lit) s = lit then Inr (v, drop (length lit) s) else Inl SyntaxError)"

lemma length_skip_ws: "length (skip_ws s) \<le> length s"
  by (simp add: skip_ws_def length_dropWhile_le)

lemma skip_ws_Cons_length: "skip_ws s = d # r \<Longrightarrow> length r < length s"
  using length_skip_ws [of s] by simp

text \<open>
  The recursive descent over values, array elements and object members. The comparisons
  of lengths bound the recursion; \<open>parse_value_shorter\<close> below shows that they always hold.
\<close>

function parse_value :: "string \<Rightarrow> parse_error + json \<times> string"
  and parse_elems :: "json list \<Rightarrow> string \<Rightarrow> parse_error + json \<times> string"
  and parse_members :: "jsobject \<Rightarrow> string \<Rightarrow> parse_error + json \<times> string" where
  "parse_value s =
     (case s of
        [] \<Rightarrow> Inl SyntaxError
      | c # cs \<Rightarrow>
          if c = CHR ''{'' then
            (case skip_ws cs of
               [] \<Rightarrow> Inl SyntaxError
             | d # r \<Rightarrow> if d = CHR ''}'' then Inr (JObj [], r) else parse_members [] (d # r))
          else if c = CHR ''['' then
            (case skip_ws cs of
               [] \<Rightarrow> Inl SyntaxError
             | d # r \<Rightarrow> if d = CHR '']'' then Inr (JArr [], r) else parse_elems [] (d # r))
          else if c = CHR 0x22 then
            (case parse_chars [] cs of
               Inl e \<Rightarrow> Inl e
             | Inr (str, r) \<Rightarrow> Inr (JStr str, r))
          else if c = CHR ''-'' \<or> is_digit c then parse_number s
          else if c = CHR ''t'' then parse_literal ''true'' (JBool True) s
          else if c = CHR ''f'' then parse_literal ''false'' (JBool False) s
          else if c = CHR ''n'' then parse_literal ''null'' JNull s
          else Inl SyntaxError)"
| "parse_elems acc s =
     (case parse_value s of
        Inl e \<Rightarrow> Inl e
      | Inr (v, r) \<Rightarrow>
          if length r < length s then
            (case skip_ws r of
               [] \<Rightarrow> Inl SyntaxError
             | d # r' \<Rightarrow>
                 if d = CHR '','' then parse_elems (acc @ [v]) (skip_ws r')
                 else if d = CHR '']'' then Inr (JArr (acc @ [v]), r')
                 else Inl SyntaxError)
          else Inl SyntaxError)"
| "parse_members acc s =
     (case s of
        [] \<Rightarrow> Inl SyntaxError
      | q # cs \<Rightarrow>
          if q \<noteq> CHR 0x22 then Inl SyntaxError
          else
            (case parse_chars [] cs of
               Inl e \<Rightarrow> Inl e
             | Inr (k, r0) \<Rightarrow>
                 (case skip_ws r0 of
                    [] \<Rightarrow> Inl SyntaxError
                  | col # r1 \<Rightarrow>
                      if col \<noteq> CHR '':'' \<or> length s \<le> length (skip_ws r1) then Inl SyntaxError
                      else
                        (case parse_value (skip_ws r1) of
                           Inl e \<Rightarrow> Inl e
                         | Inr (v, r) \<Rightarrow>
                             if length r < length s then
                               (case skip_ws r of
                                  [] \<Rightarrow> Inl SyntaxError
                                | d # r' \<Rightarrow>
                                    if d = CHR '','' then parse_members (obj_define acc k v) (skip_ws r')
                                    else if d = CHR ''}'' then Inr (JObj (obj_define acc k v), r')
                                    else Inl SyntaxError)
                             else Inl SyntaxError))))"
  by pat_completeness auto

termination
proof (relation "measure (\<lambda>x. case x of
           Inl s \<Rightarrow> 2 * length s
         | Inr (Inl (acc, s)) \<Rightarrow> 2 * length s + 1
         | Inr (Inr (acc, s)) \<Rightarrow> 2 * length s + 1)", goal_cases)
  case 1
  show ?case by simp
next
  case (2 s c cs d r)
  then show ?case using skip_ws_Cons_length [of cs d r] by simp
next
  case (3 s c cs d r)
  then show ?case using skip_ws_Cons_length [of cs d r] by simp
next
  case (4 acc s)
  show ?case by simp
next
  case (5 acc s x v r d r')
  then show ?case
    using skip_ws_Cons_length [of r d r'] length_skip_ws [of r'] by simp
next
  case (6 acc s q cs x k r0 col r1)
  then show ?case by simp
next
  case (7 acc s q cs x k r0 col r1 y v r d r')
  then show ?case
    using skip_ws_Cons_length [of r d r'] length_skip_ws [of r'] by simp
qed

declare parse_value.simps [simp del] parse_elems.simps [simp del] parse_members.simps [simp del]

definition JSON_parse :: "string \<Rightarrow> parse_error + json" where
  "JSON_parse s =
     (case parse_value (skip_ws s) of
        Inl e \<Rightarrow> Inl e
      | Inr (v, r) \<Rightarrow> if skip_ws r = [] then Inr v else Inl SyntaxError)"

section \<open>The chain verifier (\<open>verify.ts\<close>)\<close>

text \<open>The white space and line terminators that \<open>trim\<close> strips and \<open>\s\<close> matches.\<close>

definition is_js_space :: "char \<Rightarrow> bool" where
  "is_js_space c =
     (c = CHR 0x09 \<or> c = CHR 0x0A \<or> c = CHR 0x0B \<or> c = CHR 0x0C \<or> c = CHR 0x0D
      \<or> c = CHR 0x20 \<or> c = CHR 0xA0)"

definition trim :: "string \<Rightarrow> string" where
  "trim s = rev (dropWhile is_js_space (rev (dropWhile is_js_space s)))"

text \<open>\<open>s.split("\n")\<close>: the pieces between line feeds, at least one piece.\<close>

fun split_lines :: "string \<Rightarrow> string list" where
  "split_lines [] = [[]]"
| "split_lines (c # cs) =
     (if c = CHR 0x0A then [] # split_lines cs
      else (case split_lines cs of
              [] \<Rightarrow> [[c]]
            | l # ls \<Rightarrow> (c # l) # ls))"

text \<open>\<open>content.trim().split("\n").filter(Boolean)\<close>: the empty string is the only falsy string.\<close>

definition file_lines :: "string \<Rightarrow> string list" where
  "file_lines content = filter (\<lambda>l. l \<noteq> []) (split_lines (trim content))"

text \<open>
  How a run of the verifier ends: the confirmation with the number of records, one of the
  two reports with the \<open>idx\<close> the offending line declares (\<open>None\<close> prints as
  \<open>undefined\<close>), a missing argument or file, or an exception that nothing catches.
\<close>

datatype verify_result =
    Ok nat
  | ChainBreak "json option"
  | HashMismatch "json option"
  | NoFileArgument
  | FileNotFound
  | ParseFailed parse_error
  | TypeError

text \<open>
  The loop over the lines. \<open>const { hash, idx, prevHash: declaredPrev, ...rest } = line\<close>
  throws on \<open>null\<close>; on a number, a boolean, a string or an array the three names are
  \<open>undefined\<close>, and \<open>undefined !== prevHash\<close> holds since \<open>prevHash\<close> is \<open>null\<close> or a
  string. After both checks \<open>hash\<close> is the string \<open>recomputed\<close>.
\<close>

definition rest_of :: "jsobject \<Rightarrow> jsobject" where
  "rest_of kvs = filter (\<lambda>kv. fst kv \<noteq> ''hash'' \<and> fst kv \<noteq> ''idx'' \<and> fst kv \<noteq> ''prevHash'') kvs"

fun verify_loop :: "(string \<Rightarrow> string) \<Rightarrow> string option \<Rightarrow> string list \<Rightarrow> verify_result option" where
  "verify_loop sha256 prevHash [] = None"
| "verify_loop sha256 prevHash (l # ls) =
     (case JSON_parse l of
        Inl e \<Rightarrow> Some (ParseFailed e)
      | Inr line \<Rightarrow>
          (case line of
             JNull \<Rightarrow> Some TypeError
           | JObj kvs \<Rightarrow>
               (let hash = obj_get kvs ''hash'';
                    idx = obj_get kvs ''idx'';
                    declaredPrev = obj_get kvs ''prevHash'';
                    rest = rest_of kvs
                in if declaredPrev \<noteq> Some (nullable prevHash) then Some (ChainBreak idx)
                   else
                     (let recomputed =
                            sha256 (stable (JObj (obj_define rest ''prevHash'' (nullable prevHash))))
                      in if Some (JStr recomputed) \<noteq> hash then Some (HashMismatch idx)
                         else verify_loop sha256 (Some recomputed) ls))
           | _ \<Rightarrow> Some (ChainBreak None)))"

definition verify_content :: "(string \<Rightarrow> string) \<Rightarrow> string \<Rightarrow> verify_result" where
  "verify_content sha256 content =
     (let lines = file_lines content
      in case verify_loop sha256 None lines of
           Some failure \<Rightarrow> failure
         | None \<Rightarrow> Ok (length lines))"

definition verify :: "(string \<Rightarrow> string) \<Rightarrow> files \<Rightarrow> string option \<Rightarrow> verify_result" where
  "verify sha256 fs argv2 =
     (case argv2 of
        None \<Rightarrow> NoFileArgument
      | Some file \<Rightarrow>
          if file = [] then NoFileArgument
          else (case fs file of
                  None \<Rightarrow> FileNotFound
                | Some content \<Rightarrow> verify_content sha256 content))"

section \<open>The evaluation run (\<open>run.ts\<close>, with attempts)\<close>

text \<open>
  The run starts from the validated tasks; the guards on the environment and the loading
  of the dataset come before it. A JavaScript number is a real, or \<open>NaN\<close> (\<open>None\<close>).
  The environment gives every variable that is set as the number \<open>Number(...)\<close> makes of
  its text; \<open>SEED\<close> counts as unset when its text is empty.
\<close>

type_synonym number = "real option"

record Task =
  id' :: string
  prompt :: string
  tests :: "string list"

record env =
  MODEL :: string
  K_ATTEMPTS_env :: "number option"
  EVAL_TEMPERATURE_env :: "number option"
  EVAL_TOP_P_env :: "number option"
  SEED_env :: "number option"

definition K_ATTEMPTS :: "env \<Rightarrow> number" where
  "K_ATTEMPTS e = (case K_ATTEMPTS_env e of None \<Rightarrow> Some 1 | Some n \<Rightarrow> n)"

definition EVAL_TEMPERATURE :: "env \<Rightarrow> number" where
  "EVAL_TEMPERATURE e =
     (if K_ATTEMPTS e = Some 1 then Some 0
      else (case EVAL_TEMPERATURE_env e of None \<Rightarrow> Some (7 / 10) | Some n \<Rightarrow> n))"

definition EVAL_TOP_P :: "env \<Rightarrow> number" where
  "EVAL_TOP_P e =
     (if K_ATTEMPTS e = Some 1 then Some 1
      else (case EVAL_TOP_P_env e of None \<Rightarrow> Some (95 / 100) | Some n \<Rightarrow> n))"

definition systemPreamble :: string where
  "systemPreamble =
     ''You are a helpful coding assistant. Return ONLY a JavaScript function that solves the task. ''
     @ ''No explanations. Wrap the solution in a single '' @ [CHR 0x60, CHR 0x60, CHR 0x60]
     @ ''javascript code block.''"

record chat_body =
  body_model :: string
  temperature :: number
  top_p :: number
  max_tokens :: nat
  messages :: "(string \<times> string) list"
  seed :: "number option"

datatype vm_exception = ScriptSyntaxError | ScriptRuntimeError | ScriptTimeout

text \<open>
  What the run takes from outside: the generation collaborator (the answer to the
  \<open>n\<close>-th request is an error text, or the content and the latency in milliseconds),
  the scripting engine (a fresh context, running a script in a context, the truth value
  of a result), the tokenizer, the clock, the run's time stamp, the text of the dataset
  and the files present at the start.
\<close>

record ('c, 'v) world =
  fetch_completion :: "nat \<Rightarrow> chat_body \<Rightarrow> string + string \<times> int"
  new_context :: 'c
  run_script :: "string \<Rightarrow> 'c \<Rightarrow> vm_exception + 'v \<times> 'c"
  truthy :: "'v \<Rightarrow> bool"
  encode_length :: "string \<Rightarrow> nat"
  now_iso :: "int \<Rightarrow> string"
  runId :: string
  datasetRaw :: string
  disk :: files

definition chat_request :: "env \<Rightarrow> string \<Rightarrow> number option \<Rightarrow> chat_body" where
  "chat_request e userPrompt sd =
     \<lparr>body_model = MODEL e,
      temperature = EVAL_TEMPERATURE e,
      top_p = EVAL_TOP_P e,
      max_tokens = 256,
      messages = [(''system'', systemPreamble), (''user'', userPrompt)],
      seed = sd\<rparr>"

definition chat :: "('c, 'v) world \<Rightarrow> env \<Rightarrow> nat \<Rightarrow> string \<Rightarrow> number option \<Rightarrow> string + string \<times> int" where
  "chat W e n userPrompt sd = fetch_completion W n (chat_request e userPrompt sd)"

subsection \<open>\<open>extractCode\<close>\<close>

definition fence :: string where
  "fence = [CHR 0x60, CHR 0x60, CHR 0x60]"

text \<open>The text before and the text after the first fence.\<close>

fun find_fence :: "string \<Rightarrow> (string \<times> string) option" where
  "find_fence [] = None"
| "find_fence (c # cs) =
     (if take 3 (c # cs) = fence then Some ([], drop 3 (c # cs))
      else (case find_fence cs of
              None \<Rightarrow> None
            | Some (b, a) \<Rightarrow> Some (c # b, a)))"

definition to_lower :: "char \<Rightarrow> char" where
  "to_lower c = (if CHR ''A'' \<le> c \<and> c \<le> CHR ''Z'' then char_of (of_char c + (32 :: int)) else c)"

definition strip_lang :: "string \<Rightarrow> string" where
  "strip_lang s =
     (if map to_lower (take 10 s) = ''javascript'' then drop 10 s
      else if map to_lower (take 2 s) = ''js'' then drop 2 s
      else s)"

text \<open>
  The match of the regular expression: the first fence, an optional language tag, white
  space, and the shortest text up to the next fence. Without a match the whole text is
  taken.
\<close>

definition extractCode :: "string \<Rightarrow> string" where
  "extractCode md =
     trim (case find_fence md of
             None \<Rightarrow> md
           | Some (b, a) \<Rightarrow>
               (case find_fence (dropWhile is_js_space (strip_lang a)) of
                  None \<Rightarrow> md
                | Some (m1, r) \<Rightarrow> m1))"

subsection \<open>\<open>runInSandbox\<close> and the verdicts of one attempt\<close>

definition runInSandbox :: "('c, 'v) world \<Rightarrow> string \<Rightarrow> string \<Rightarrow> vm_exception + bool" where
  "runInSandbox W code testExpr =
     (case run_script W code (new_context W) of
        Inl x \<Rightarrow> Inl x
      | Inr (u, ctx) \<Rightarrow>
          (case run_script W testExpr ctx of
             Inl x \<Rightarrow> Inl x
           | Inr (result, ctx') \<Rightarrow> Inr (truthy W result)))"

text \<open>\<open>let ok = false; try { ok = runInSandbox(code, test); } catch { ok = false; }\<close>\<close>

definition test_verdict :: "('c, 'v) world \<Rightarrow> string \<Rightarrow> string \<Rightarrow> bool" where
  "test_verdict W code test =
     (case runInSandbox W code test of
        Inl x \<Rightarrow> False
      | Inr ok \<Rightarrow> ok)"

fun tests_loop ::
  "('c, 'v) world \<Rightarrow> string \<Rightarrow> bool \<Rightarrow> (string \<times> bool) list \<Rightarrow> string list
     \<Rightarrow> bool \<times> (string \<times> bool) list" where
  "tests_loop W code allPass verdicts [] = (allPass, verdicts)"
| "tests_loop W code allPass verdicts (test # ts) =
     (let ok = test_verdict W code test
      in tests_loop W code (if \<not> ok then False else allPass) (verdicts @ [(test, ok)]) ts)"

subsection \<open>The attempts of one task\<close>

record attempt =
  a_idx :: nat
  a_seed :: "number option"
  a_latency_ms :: int
  a_tokens_input :: nat
  a_tokens_output :: nat
  a_pass :: bool

record task_result =
  r_id :: string
  r_prompt_sha256 :: string
  r_pass1 :: bool
  r_passk :: bool
  r_attempts :: "attempt list"

text \<open>The script's variables: those of the whole run, and those of one task.\<close>

record run_state =
  pass1 :: nat
  passk :: nat
  totalInputTokens :: nat
  totalOutputTokens :: nat
  totalLatencyMs :: int
  results :: "task_result list"
  prevHash_var :: "string option"
  idx_var :: int
  files_var :: files
  calls :: nat

record task_state =
  attempts :: "attempt list"
  solved :: bool
  chosenCode :: string
  firstAttemptPass :: bool

definition below_K :: "env \<Rightarrow> nat \<Rightarrow> bool" where
  "below_K e a = (case K_ATTEMPTS e of None \<Rightarrow> False | Some k \<Rightarrow> real a < k)"

definition seed_of :: "env \<Rightarrow> nat \<Rightarrow> number option" where
  "seed_of e a =
     (case SEED_env e of
        None \<Rightarrow> None
      | Some n \<Rightarrow> Some (case n of None \<Rightarrow> None | Some x \<Rightarrow> Some (x + real a)))"

text \<open>
  The body of the attempt loop, up to its \<open>break\<close>: the flag tells whether the loop is
  left (\<open>allPass\<close>).
\<close>

definition attempt_body ::
  "('c, 'v) world \<Rightarrow> env \<Rightarrow> Task \<Rightarrow> nat \<Rightarrow> run_state \<Rightarrow> task_state
     \<Rightarrow> string + bool \<times> run_state \<times> task_state" where
  "attempt_body W e t a g l =
     (case chat W e (calls g) (prompt t) (seed_of e a) of
        Inl err \<Rightarrow> Inl err
      | Inr (content, latency_ms) \<Rightarrow>
          (let code = extractCode content;
               inputTokens = encode_length W (prompt t);
               outputTokens = encode_length W code;
               g' = g\<lparr>totalInputTokens := totalInputTokens g + inputTokens,
                      totalOutputTokens := totalOutputTokens g + outputTokens,
                      totalLatencyMs := totalLatencyMs g + latency_ms,
                      calls := calls g + 1\<rparr>;
               allPass = fst (tests_loop W code True [] (tests t));
               l1 = l\<lparr>attempts := attempts l @
                      [\<lparr>a_idx = a + 1, a_seed = seed_of e a, a_latency_ms = latency_ms,
                        a_tokens_input = inputTokens, a_tokens_output = outputTokens,
                        a_pass = allPass\<rparr>]\<rparr>;
               l2 = (if a = 0 \<and> allPass then l1\<lparr>firstAttemptPass := True\<rparr> else l1)
           in if allPass then Inr (True, g', l2\<lparr>solved := True, chosenCode := code\<rparr>)
              else Inr (False, g', l2)))"

text \<open>\<open>for (let a = 0; a < K_ATTEMPTS; a++) { ... if (allPass) { ...; break; } }\<close>\<close>

function attempt_loop ::
  "('c, 'v) world \<Rightarrow> env \<Rightarrow> Task \<Rightarrow> nat \<Rightarrow> run_state \<Rightarrow> task_state
     \<Rightarrow> string + run_state \<times> task_state" where
  "attempt_loop W e t a g l =
     (if below_K e a then
        (case attempt_body W e t a g l of
           Inl err \<Rightarrow> Inl err
         | Inr (stop, g', l') \<Rightarrow>
             if stop then Inr (g', l') else attempt_loop W e t (a + 1) g' l')
      else Inr (g, l))"
  by pat_completeness auto
termination
proof (relation "measure (\<lambda>(W, e, t, a, g, l). case K_ATTEMPTS e of None \<Rightarrow> 0 | Some k \<Rightarrow> nat \<lceil>k\<rceil> - a)",
    goal_cases)
  case 1
  show ?case by simp
next
  case (2 W e t a g l x2 stop y g' l')
  then obtain k where k: "K_ATTEMPTS e = Some k" "real a < k"
    by (auto simp: below_K_def split: option.splits)
  then have "a < nat \<lceil>k\<rceil>" by linarith
  with k show ?case by simp
qed

declare attempt_loop.simps [simp del]

subsection \<open>One task, and the run\<close>

definition attestPath :: "('c, 'v) world \<Rightarrow> string" where
  "attestPath W = ''results/attest-'' @ runId W @ ''.jsonl''"

text \<open>
  The source computes, under the comment ``pick code hash: winning attempt's code if
  solved; otherwise last attempt's'', the value
  \<open>hash(chosenCode || extractCode(attempts.at(-1) ? "" : ""))\<close> and never uses it.
\<close>

definition codeHash :: "(string \<Rightarrow> string) \<Rightarrow> task_state \<Rightarrow> string" where
  "codeHash sha256 l =
     sha256 (if chosenCode l \<noteq> [] then chosenCode l
             else extractCode (if attempts l \<noteq> [] then [] else []))"

definition attestation_of ::
  "(string \<Rightarrow> string) \<Rightarrow> ('c, 'v) world \<Rightarrow> env \<Rightarrow> Task \<Rightarrow> run_state \<Rightarrow> task_state \<Rightarrow> TaskAttestation" where
  "attestation_of sha256 W e t g l =
     \<lparr>run_id = runId W,
      task_id = id' t,
      model = MODEL e,
      dataset_sha256 = sha256 (datasetRaw W),
      prompt_sha256 = sha256 (prompt t),
      code_sha256 = (if chosenCode l \<noteq> [] then sha256 (chosenCode l) else ''none''),
      pass = solved l,
      timestamp = now_iso W (idx_var g)\<rparr>"

definition process_task ::
  "(string \<Rightarrow> string) \<Rightarrow> ('c, 'v) world \<Rightarrow> env \<Rightarrow> Task \<Rightarrow> run_state \<Rightarrow> string + run_state" where
  "process_task sha256 W e t g =
     (case attempt_loop W e t 0 g
             \<lparr>attempts = [], solved = False, chosenCode = [], firstAttemptPass = False\<rparr> of
        Inl err \<Rightarrow> Inl err
      | Inr (g1, l) \<Rightarrow>
          (let g2 = (if firstAttemptPass l then g1\<lparr>pass1 := pass1 g1 + 1\<rparr> else g1);
               g3 = (if solved l then g2\<lparr>passk := passk g2 + 1\<rparr> else g2);
               res = \<lparr>r_id = id' t, r_prompt_sha256 = sha256 (prompt t),
                      r_pass1 = firstAttemptPass l, r_passk = solved l, r_attempts = attempts l\<rparr>;
               (fs', h) = appendRecord sha256 (files_var g3) (attestPath W)
                            (attestation_of sha256 W e t g3 l) (prevHash_var g3) (idx_var g3)
           in Inr (g3\<lparr>results := results g3 @ [res],
                       prevHash_var := Some h,
                       idx_var := idx_var g3 + 1,
                       files_var := fs'\<rparr>)))"

fun task_loop ::
  "(string \<Rightarrow> string) \<Rightarrow> ('c, 'v) world \<Rightarrow> env \<Rightarrow> run_state \<Rightarrow> Task list \<Rightarrow> string + run_state" where
  "task_loop sha256 W e g [] = Inr g"
| "task_loop sha256 W e g (t # ts) =
     (case process_task sha256 W e t g of
        Inl err \<Rightarrow> Inl err
      | Inr g' \<Rightarrow> task_loop sha256 W e g' ts)"

record totals =
  t_pass1 :: nat
  t_passk :: nat
  t_total :: nat
  t_latency_ms :: int
  t_tokens_input :: nat
  t_tokens_output :: nat
  t_tokens_total :: nat

record summary =
  s_run_id :: string
  s_model :: string
  s_temperature :: number
  s_top_p :: number
  s_dataset_sha256 :: string
  s_k :: number
  s_totals :: totals
  s_results :: "task_result list"
  s_attestation_file :: string

definition initial_state :: "('c, 'v) world \<Rightarrow> run_state" where
  "initial_state W =
     \<lparr>pass1 = 0, passk = 0, totalInputTokens = 0, totalOutputTokens = 0, totalLatencyMs = 0,
      results = [], prevHash_var = None, idx_var = 0,
      files_var = startChain (disk W) (attestPath W), calls = 0\<rparr>"

definition summary_of ::
  "(string \<Rightarrow> string) \<Rightarrow> ('c, 'v) world \<Rightarrow> env \<Rightarrow> Task list \<Rightarrow> run_state \<Rightarrow> summary" where
  "summary_of sha256 W e tasks g =
     \<lparr>s_run_id = runId W,
      s_model = MODEL e,
      s_temperature = EVAL_TEMPERATURE e,
      s_top_p = EVAL_TOP_P e,
      s_dataset_sha256 = sha256 (datasetRaw W),
      s_k = K_ATTEMPTS e,
      s_totals = \<lparr>t_pass1 = pass1 g, t_passk = passk g, t_total = length tasks,
                   t_latency_ms = totalLatencyMs g,
                   t_tokens_input = totalInputTokens g, t_tokens_output = totalOutputTokens g,
                   t_tokens_total = totalInputTokens g + totalOutputTokens g\<rparr>,
      s_results = results g,
      s_attestation_file = attestPath W\<rparr>"

text \<open>
  The whole run: an error of the generation collaborator ends it without a summary;
  otherwise it returns the files, with the attestation log, and the summary.
\<close>

definition main ::
  "(string \<Rightarrow> string) \<Rightarrow> ('c, 'v) world \<Rightarrow> env \<Rightarrow> Task list \<Rightarrow> string + files \<times> summary" where
  "main sha256 W e tasks =
     (case task_loop sha256 W e (initial_state W) tasks of
        Inl err \<Rightarrow> Inl err
      | Inr g \<Rightarrow> Inr (files_var g, summary_of sha256 W e tasks g))"

section \<open>Properties of the chain builder\<close>

lemma appendRecord_hash: "snd (appendRecord sha256 fs path r prevHash idx) = sha256 (contentToHash r prevHash)"
  by (simp add: appendRecord_def Let_def)

lemma append_all_hash_idx:
  "snd (append_all sha256 path fs prevHash idx rs) = snd (append_all sha256 path' fs' prevHash idx' rs)"
proof (induction rs arbitrary: fs fs' prevHash idx idx')
  case Nil
  show ?case by simp
next
  case (Cons r rs)
  show ?case
    using Cons.IH by (simp add: appendRecord_def Let_def)
qed

text \<open>
  C9: the hash that \<open>appendRecord\<close> returns is \<open>sha256\<close> of the canonical form of the
  record's fields and \<open>prevHash\<close>; two calls that differ in \<open>idx\<close>, in the path or in the
  files return the same hash. So do the calls for the next record, which take that hash
  as their \<open>prevHash\<close>, and so does the builder's whole sequence of calls started from a
  different \<open>idx\<close>.
\<close>

theorem appendRecord_hash_ignores_idx:
  "snd (appendRecord sha256 fs path r prevHash idx) = sha256 (contentToHash r prevHash)
   \<and> snd (appendRecord sha256 fs path r prevHash idx) = snd (appendRecord sha256 fs' path' r prevHash idx')
   \<and> snd (appendRecord sha256 fs2 path2 r2 (Some (snd (appendRecord sha256 fs path r prevHash idx))) j)
       = snd (appendRecord sha256 fs2' path2' r2 (Some (snd (appendRecord sha256 fs' path' r prevHash idx'))) j')
   \<and> snd (append_all sha256 path fs prevHash idx rs) = snd (append_all sha256 path' fs' prevHash idx' rs)"
  using append_all_hash_idx [of sha256 path fs prevHash idx rs path' fs' idx']
  by (simp add: appendRecord_hash)

section \<open>A concrete run\<close>

text \<open>
  A small world for concrete runs: the collaborator answers the first request with a
  program that throws and every later request with a program that passes the test.
\<close>

definition demo_world :: "(string list, bool) world" where
  "demo_world =
     \<lparr>fetch_completion = (\<lambda>n b. if n = 0 then Inr (''throw 1'', 7) else Inr (''good'', 9)),
      new_context = [],
      run_script = (\<lambda>s ctx. if s = ''throw 1'' then Inl ScriptRuntimeError
                             else Inr (ctx = [''good''], ctx @ [s])),
      truthy = (\<lambda>v. v),
      encode_length = length,
      now_iso = (\<lambda>i. ''2024-01-01T00:00:00.000Z''),
      runId = ''1700000000000'',
      datasetRaw = ''[]'',
      disk = Map.empty\<rparr>"

definition demo_env :: "number option \<Rightarrow> env" where
  "demo_env k =
     \<lparr>MODEL = ''m'', K_ATTEMPTS_env = k, EVAL_TEMPERATURE_env = Some (Some (9 / 10)),
      EVAL_TOP_P_env = Some (Some (1 / 2)), SEED_env = None\<rparr>"

definition demo_task :: Task where
  "demo_task = \<lparr>id' = ''t1'', prompt = ''p'', tests = [''t'']\<rparr>"

lemma demo_world_sel:
  "fetch_completion demo_world n b = (if n = 0 then Inr (''throw 1'', 7) else Inr (''good'', 9))"
  "encode_length demo_world = length"
  "runId demo_world = ''1700000000000''"
  "datasetRaw demo_world = ''[]''"
  "disk demo_world = Map.empty"
  "now_iso demo_world i = ''2024-01-01T00:00:00.000Z''"
  by (simp_all add: demo_world_def)

lemma demo_env_sel:
  "MODEL (demo_env k) = ''m''" "K_ATTEMPTS_env (demo_env k) = k" "SEED_env (demo_env k) = None"
  "EVAL_TEMPERATURE_env (demo_env k) = Some (Some (9 / 10))"
  "EVAL_TOP_P_env (demo_env k) = Some (Some (1 / 2))"
  by (simp_all add: demo_env_def)

lemma demo_task_sel: "id' demo_task = ''t1''" "prompt demo_task = ''p''" "tests demo_task = [''t'']"
  by (simp_all add: demo_task_def)


lemma demo_verdicts:
  "test_verdict demo_world ''throw 1'' ''t'' = False"
  "test_verdict demo_world ''good'' ''t'' = True"
  by (simp_all add: test_verdict_def runInSandbox_def demo_world_def)

lemma demo_extract: "extractCode ''throw 1'' = ''throw 1''" "extractCode ''good'' = ''good''"
  by code_simp+

lemmas demo_simps = demo_world_sel demo_env_sel demo_task_sel demo_extract demo_verdicts

lemma demo_body:
  "attempt_body demo_world (demo_env k) demo_task a g l =
     (if calls g = 0 then
        Inr (False,
             g\<lparr>totalInputTokens := totalInputTokens g + 1,
               totalOutputTokens := totalOutputTokens g + 7,
               totalLatencyMs := totalLatencyMs g + 7,
               calls := calls g + 1\<rparr>,
             l\<lparr>attempts := attempts l @
                 [\<lparr>a_idx = a + 1, a_seed = None, a_latency_ms = 7,
                   a_tokens_input = 1, a_tokens_output = 7, a_pass = False\<rparr>]\<rparr>)
      else
        Inr (True,
             g\<lparr>totalInputTokens := totalInputTokens g + 1,
               totalOutputTokens := totalOutputTokens g + 4,
               totalLatencyMs := totalLatencyMs g + 9,
               calls := calls g + 1\<rparr>,
             (if a = 0
              then l\<lparr>attempts := attempts l @
                       [\<lparr>a_idx = a + 1, a_seed = None, a_latency_ms = 9,
                         a_tokens_input = 1, a_tokens_output = 4, a_pass = True\<rparr>],
                     firstAttemptPass := True\<rparr>
              else l\<lparr>attempts := attempts l @
                       [\<lparr>a_idx = a + 1, a_seed = None, a_latency_ms = 9,
                         a_tokens_input = 1, a_tokens_output = 4, a_pass = True\<rparr>]\<rparr>)
             \<lparr>solved := True, chosenCode := ''good''\<rparr>))"
  by (simp add: attempt_body_def chat_def seed_of_def Let_def demo_simps)

lemma demo_run_k2:
  "\<exists>fs S. main (\<lambda>s. s) demo_world (demo_env (Some (Some 2))) [demo_task] = Inr (fs, S)
     \<and> t_pass1 (s_totals S) = 0 \<and> t_passk (s_totals S) = 1"
  by (simp add: main_def process_task_def attempt_loop.simps K_ATTEMPTS_def below_K_def
        initial_state_def demo_body demo_simps summary_of_def split: prod.splits)


section \<open>Properties of the run\<close>


lemma attempt_body_inv:
  assumes "attempt_body W e t a g l = Inr (stop, g', l')"
  shows "pass1 g' = pass1 g" and "passk g' = passk g"
    and "solved l' \<longleftrightarrow> solved l \<or> stop"
    and "firstAttemptPass l' \<longleftrightarrow> firstAttemptPass l \<or> (a = 0 \<and> stop)"
    and "\<not> stop \<Longrightarrow> chosenCode l' = chosenCode l"
  using assms
  by (auto simp: attempt_body_def Let_def split: sum.splits prod.splits if_splits)

lemma attempt_loop_inv:
  "attempt_loop W e t a g l = Inr (g', l') \<Longrightarrow>
     pass1 g' = pass1 g \<and> passk g' = passk g
     \<and> ((firstAttemptPass l \<longrightarrow> solved l) \<longrightarrow> (firstAttemptPass l' \<longrightarrow> solved l'))
     \<and> (\<not> solved l' \<longrightarrow> chosenCode l' = chosenCode l)"
proof (induction W e t a g l rule: attempt_loop.induct)
  case (1 W e t a g l)
  show ?case
  proof (cases "below_K e a")
    case False
    with "1.prems" show ?thesis by (simp add: attempt_loop.simps)
  next
    case True
    show ?thesis
    proof (cases "attempt_body W e t a g l")
      case (Inl err)
      with True "1.prems" show ?thesis by (simp add: attempt_loop.simps)
    next
      case (Inr p)
      obtain stop g1 l1 where p: "p = (stop, g1, l1)" by (cases p)
      note inv = attempt_body_inv [OF Inr [unfolded p]]
      show ?thesis
      proof (cases stop)
        case True
        with \<open>below_K e a\<close> Inr p "1.prems" have "g' = g1" "l' = l1"
          by (simp_all add: attempt_loop.simps [of W e t a g l])
        with inv True show ?thesis by simp
      next
        case False
        with \<open>below_K e a\<close> Inr p "1.prems"
        have rec: "attempt_loop W e t (a + 1) g1 l1 = Inr (g', l')"
          by (simp add: attempt_loop.simps [of W e t a g l])
        from "1.IH" [OF \<open>below_K e a\<close> Inr p [symmetric] refl False rec] inv False
        show ?thesis by auto
      qed
    qed
  qed
qed

lemma attempt_loop_k1:
  assumes k: "K_ATTEMPTS e = Some 1"
    and run: "attempt_loop W e t 0 g l = Inr (g', l')"
    and init: "solved l = firstAttemptPass l"
  shows "solved l' = firstAttemptPass l'"
proof -
  have b0: "below_K e 0" and b1: "\<not> below_K e (Suc 0)"
    using k by (simp_all add: below_K_def)
  show ?thesis
  proof (cases "attempt_body W e t 0 g l")
    case (Inl err)
    with b0 run show ?thesis by (simp add: attempt_loop.simps)
  next
    case (Inr p)
    obtain stop g1 l1 where p: "p = (stop, g1, l1)" by (cases p)
    note inv = attempt_body_inv [OF Inr [unfolded p]]
    have "g' = g1 \<and> l' = l1"
      using b0 b1 Inr p run
      by (cases stop)
         (simp_all add: attempt_loop.simps [of W e t 0 g l]
            attempt_loop.simps [of W e t "Suc 0" g1 l1])
    with inv init show ?thesis by simp
  qed
qed

lemma process_task_counts:
  assumes "process_task sha256 W e t g = Inr g'"
  shows "pass1 g \<le> passk g \<Longrightarrow> pass1 g' \<le> passk g'"
    and "K_ATTEMPTS e = Some 1 \<Longrightarrow> pass1 g = passk g \<Longrightarrow> pass1 g' = passk g'"
proof -
  let ?l0 = "\<lparr>attempts = [], solved = False, chosenCode = [], firstAttemptPass = False\<rparr>"
  from assms obtain g1 l where run: "attempt_loop W e t 0 g ?l0 = Inr (g1, l)"
    by (auto simp: process_task_def split: sum.splits)
  from attempt_loop_inv [OF run] have c: "pass1 g1 = pass1 g" "passk g1 = passk g"
    and fs: "firstAttemptPass l \<longrightarrow> solved l" by simp_all
  have g': "pass1 g' = pass1 g + (if firstAttemptPass l then 1 else 0)"
       "passk g' = passk g + (if solved l then 1 else 0)"
    using assms run c by (auto simp: process_task_def Let_def split: prod.splits)
  show "pass1 g \<le> passk g \<Longrightarrow> pass1 g' \<le> passk g'"
    using g' fs by auto
  show "K_ATTEMPTS e = Some 1 \<Longrightarrow> pass1 g = passk g \<Longrightarrow> pass1 g' = passk g'"
    using g' attempt_loop_k1 [OF _ run] by auto
qed

lemma task_loop_counts:
  assumes "task_loop sha256 W e g ts = Inr g'"
  shows "pass1 g \<le> passk g \<Longrightarrow> pass1 g' \<le> passk g'"
    and "K_ATTEMPTS e = Some 1 \<Longrightarrow> pass1 g = passk g \<Longrightarrow> pass1 g' = passk g'"
  using assms
proof (induction ts arbitrary: g)
  case Nil
  { case 1 then show ?case by simp }
  { case 2 then show ?case by simp }
next
  case (Cons t ts)
  { case 1
    then obtain g1 where s: "process_task sha256 W e t g = Inr g1"
      and r: "task_loop sha256 W e g1 ts = Inr g'"
      by (auto split: sum.splits)
    from Cons.IH(1) [OF _ r] process_task_counts(1) [OF s] 1 show ?case by simp }
  { case 2
    then obtain g1 where s: "process_task sha256 W e t g = Inr g1"
      and r: "task_loop sha256 W e g1 ts = Inr g'"
      by (auto split: sum.splits)
    from Cons.IH(2) [OF _ _ r] process_task_counts(2) [OF s] 2 show ?case by simp }
qed



text \<open>
  C7: in the summary of a run with \<open>k \<ge> 1\<close> attempts per task the count \<open>passk\<close> is at
  least the count \<open>pass1\<close>, and with \<open>k = 1\<close> the two counts are equal.
\<close>

theorem passk_ge_pass1:
  assumes "main sha256 W e tasks = Inr (fs, S)"
    and "K_ATTEMPTS e = Some k" and "1 \<le> k"
  shows "t_pass1 (s_totals S) \<le> t_passk (s_totals S)
         \<and> (k = 1 \<longrightarrow> t_pass1 (s_totals S) = t_passk (s_totals S))"
proof -
  from assms(1) obtain g where g: "task_loop sha256 W e (initial_state W) tasks = Inr g"
    and S: "S = summary_of sha256 W e tasks g"
    by (auto simp: main_def split: sum.splits)
  have i: "pass1 (initial_state W) = 0" "passk (initial_state W) = 0"
    by (simp_all add: initial_state_def)
  from task_loop_counts [OF g] i assms(2) S show ?thesis
    by (auto simp: summary_of_def)
qed

theorem passk_ge_pass1_witness:
  "\<exists>fs S. main (\<lambda>s. s) demo_world (demo_env (Some (Some 2))) [demo_task] = Inr (fs, S)
     \<and> K_ATTEMPTS (demo_env (Some (Some 2))) = Some 2 \<and> (1 :: real) \<le> 2
     \<and> t_pass1 (s_totals S) \<le> t_passk (s_totals S)"
proof -
  from demo_run_k2 obtain fs S
    where m: "main (\<lambda>s. s) demo_world (demo_env (Some (Some 2))) [demo_task] = Inr (fs, S)"
    by blast
  have k: "K_ATTEMPTS (demo_env (Some (Some 2))) = Some 2"
    by (simp add: K_ATTEMPTS_def demo_env_sel)
  from passk_ge_pass1 [OF m k] m k show ?thesis by simp
qed



text \<open>
  C3, evaluated where no attempt passes: with \<open>K_ATTEMPTS\<close> unset, the task's only attempt
  yields the code \<open>throw 1\<close>, which fails its test. The run appends one record for the
  task, and the record's \<open>code_sha256\<close> is the text \<open>none\<close>, whatever the hash function
  is; it is not the digest of the attempt's code.
\<close>

theorem unsolved_task_attests_none:
  "\<forall>sha256. \<exists>g.
     process_task sha256 demo_world (demo_env None) demo_task (initial_state demo_world) = Inr g
     \<and> map r_passk (results g) = [False]
     \<and> map (map a_pass \<circ> r_attempts) (results g) = [[False]]
     \<and> extractCode (fst (projr (fetch_completion demo_world 0
           (chat_request (demo_env None) (prompt demo_task) None)))) = ''throw 1''
     \<and> files_var g =
         fst (appendRecord sha256 (startChain Map.empty ''results/attest-1700000000000.jsonl'')
                ''results/attest-1700000000000.jsonl''
                \<lparr>run_id = ''1700000000000'', task_id = ''t1'', model = ''m'',
                  dataset_sha256 = sha256 ''[]'', prompt_sha256 = sha256 ''p'',
                  code_sha256 = ''none'', pass = False,
                  timestamp = ''2024-01-01T00:00:00.000Z''\<rparr>
                None 0)"
  by (simp add: process_task_def attempt_loop.simps K_ATTEMPTS_def below_K_def initial_state_def
        demo_body demo_simps attestation_of_def attestPath_def split: prod.splits)

section \<open>\<open>JSON.parse\<close> inverts \<open>JSON.stringify\<close>\<close>

subsection \<open>Characters, digits and numbers\<close>

lemma of_char_int_nat: "(of_char c :: int) = int (of_char c)"
  by (simp add: of_nat_of_char)

lemma of_char_int_bounds: "0 \<le> (of_char c :: int)" "(of_char c :: int) < 256"
  by (simp_all add: of_char_int_nat)

lemma char_le_iff: "c \<le> d \<longleftrightarrow> (of_char c :: int) \<le> of_char d"
  by (simp add: less_eq_char_def of_char_int_nat)

lemma is_digit_iff: "is_digit c \<longleftrightarrow> 48 \<le> (of_char c :: int) \<and> (of_char c :: int) \<le> 57"
  by (simp add: is_digit_def char_le_iff)

lemma char_eq_iff_int: "c = d \<longleftrightarrow> (of_char c :: int) = of_char d"
  by simp

lemma digit_char:
  assumes "0 \<le> (n::int)" "n < 10"
  shows "is_digit (char_of (48 + n))" and "digit_val (char_of (48 + n)) = n"
    and "char_of (48 + n) = CHR ''0'' \<longleftrightarrow> n = 0"
  using assms by (simp_all add: is_digit_iff digit_val_def char_eq_iff_int del: of_char_eq_iff)

lemma int_of_digits_snoc: "int_of_digits (ds @ [c]) = 10 * int_of_digits ds + digit_val c"
  by (simp add: int_of_digits_def)

lemma digits_0: "digits 0 = ''0''"
  by (simp add: digits.simps [of 0] char_eq_iff_int del: of_char_eq_iff)

lemma digits_props:
  "0 \<le> n \<Longrightarrow> digits n \<noteq> [] \<and> list_all is_digit (digits n) \<and> int_of_digits (digits n) = n
     \<and> (hd (digits n) = CHR ''0'' \<longrightarrow> n = 0) \<and> (n = 0 \<longrightarrow> digits n = ''0'')"
proof (induction n rule: digits.induct)
  case (1 n)
  show ?case
  proof (cases "n < 10")
    case True
    with "1.prems" digit_char [of n] show ?thesis
      by (auto simp add: digits.simps [of n] int_of_digits_def digits_0)
  next
    case False
    then have "0 \<le> n div 10" "0 < n div 10" using "1.prems" by simp_all
    from "1.IH" [OF False this(1)] this(2) 
    have ih: "digits (n div 10) \<noteq> []" "list_all is_digit (digits (n div 10))"
      "int_of_digits (digits (n div 10)) = n div 10" "hd (digits (n div 10)) \<noteq> CHR ''0''" by auto
    have m: "0 \<le> n mod 10" "n mod 10 < 10" by simp_all
    from False ih digit_char [OF m] show ?thesis
      by (simp add: digits.simps [of n] int_of_digits_snoc)
  qed
qed

lemma takeWhile_digits:
  assumes "list_all is_digit ds" "r = [] \<or> \<not> is_digit (hd r)"
  shows "takeWhile is_digit (ds @ r) = ds" "dropWhile is_digit (ds @ r) = r"
  using assms by (cases r; induction ds; simp)+

text \<open>What can follow a value inside a text that \<open>JSON.stringify\<close> has written.\<close>

definition ok_follow :: "string \<Rightarrow> bool" where
  "ok_follow r = (r = [] \<or> hd r = CHR '','' \<or> hd r = CHR '']'' \<or> hd r = CHR ''}'')"

lemma ok_follow_not_digit: "ok_follow r \<Longrightarrow> r = [] \<or> \<not> is_digit (hd r)"
  by (auto simp: ok_follow_def is_digit_iff)

lemma parse_number_show_int:
  assumes "ok_follow r"
  shows "parse_number (show_int i @ r) = Inr (JNum i, r)"
proof (cases "i < 0")
  case True
  then have n: "0 \<le> - i" "- i \<noteq> 0" by simp_all
  from digits_props [OF n(1)] n(2)
  have d: "digits (- i) \<noteq> []" "list_all is_digit (digits (- i))" "int_of_digits (digits (- i)) = - i"
    "hd (digits (- i)) \<noteq> CHR ''0''" by auto
  from takeWhile_digits [OF d(2) ok_follow_not_digit [OF assms]] d True assms
  show ?thesis
    by (auto simp: parse_number_def show_int_def Let_def ok_follow_def)
next
  case False
  then have n: "0 \<le> i" by simp
  from digits_props [OF n]
  have d: "digits i \<noteq> []" "list_all is_digit (digits i)" "int_of_digits (digits i) = i"
    "hd (digits i) = CHR ''0'' \<longrightarrow> digits i = ''0''" by auto
  have h: "hd (digits i @ r) = hd (digits i)" using d(1) by simp
  have nm: "hd (digits i) \<noteq> CHR ''-''"
    using d(1,2) by (cases "digits i") (auto simp: is_digit_iff)
  from takeWhile_digits [OF d(2) ok_follow_not_digit [OF assms]] d False assms h nm
  show ?thesis
    by (auto simp: parse_number_def show_int_def Let_def ok_follow_def)
qed


subsection \<open>String literals\<close>

lemma hex_val_hex_digit:
  assumes "0 \<le> d" "d < 16"
  shows "hex_val (hex_digit d) = Some d"
proof (cases "d < 10")
  case True
  with assms show ?thesis
    by (simp add: hex_val_def hex_digit_def is_digit_iff)
next
  case False
  with assms show ?thesis
    by (simp add: hex_val_def hex_digit_def is_digit_iff char_le_iff)
qed

lemma hex_val_0: "hex_val CHR ''0'' = Some 0"
  by (simp add: hex_val_def is_digit_iff)

lemma parse_chars_quote_end: "parse_chars acc (CHR 0x22 # r) = Inr (acc, r)"
  by (cases r) simp_all

lemma parse_chars_escape:
  assumes "rest \<noteq> []"
  shows "parse_chars acc (escape_char c @ rest) = parse_chars (acc @ [c]) rest"
proof -
  obtain e cs where rest: "rest = e # cs" using assms by (cases rest) auto
  consider (short) "c = CHR 0x22 \<or> c = CHR 0x5C \<or> c = CHR 0x08 \<or> c = CHR 0x0C \<or> c = CHR 0x0A
      \<or> c = CHR 0x0D \<or> c = CHR 0x09"
    | (uni) "\<not> (c = CHR 0x22 \<or> c = CHR 0x5C \<or> c = CHR 0x08 \<or> c = CHR 0x0C \<or> c = CHR 0x0A
      \<or> c = CHR 0x0D \<or> c = CHR 0x09)" "(of_char c :: int) < 32"
    | (plain) "\<not> (c = CHR 0x22 \<or> c = CHR 0x5C \<or> c = CHR 0x08 \<or> c = CHR 0x0C \<or> c = CHR 0x0A
      \<or> c = CHR 0x0D \<or> c = CHR 0x09)" "\<not> (of_char c :: int) < 32"
    by blast
  then show ?thesis
  proof cases
    case short
    then show ?thesis
      by (auto simp: escape_char_def unescape_def)
  next
    case uni
    let ?n = "of_char c :: int"
    have b: "0 \<le> ?n" by (rule of_char_int_bounds)
    have h1: "hex_val (hex_digit (?n div 16)) = Some (?n div 16)"
      using uni(2) b by (intro hex_val_hex_digit) simp_all
    have h2: "hex_val (hex_digit (?n mod 16)) = Some (?n mod 16)"
      by (intro hex_val_hex_digit) simp_all
    have h: "hex4 CHR ''0'' CHR ''0'' (hex_digit (?n div 16)) (hex_digit (?n mod 16)) = Some ?n"
      by (simp add: hex4_def hex_val_0 h1 h2)
    from uni h show ?thesis
      by (simp add: escape_char_def)
  next
    case plain
    then show ?thesis
      by (simp add: escape_char_def rest)
  qed
qed

lemma parse_chars_body:
  "parse_chars acc (concat (map escape_char s) @ CHR 0x22 # r) = Inr (acc @ s, r)"
proof (induction s arbitrary: acc)
  case Nil
  show ?case by (simp add: parse_chars_quote_end)
next
  case (Cons c s)
  have "parse_chars acc (escape_char c @ (concat (map escape_char s) @ CHR 0x22 # r))
        = parse_chars (acc @ [c]) (concat (map escape_char s) @ CHR 0x22 # r)"
    by (rule parse_chars_escape) simp
  with Cons.IH [of "acc @ [c]"] show ?case by simp
qed

lemma parse_chars_quote: "parse_chars [] (tl (quote s) @ r) = Inr (s, r)"
  using parse_chars_body [of "[]" s r] by (simp add: quote_def)

lemma digit_val_props:
  assumes "is_digit c"
  shows "0 \<le> digit_val c" "digit_val c < 10" "char_of (48 + digit_val c) = c"
    "digit_val c = 0 \<longleftrightarrow> c = CHR ''0''"
  using assms of_char_int_bounds [of c]
  by (simp_all add: is_digit_iff digit_val_def char_of_eq_iff take_bit_eq_mod char_eq_iff_int del: of_char_eq_iff)

lemma int_of_digits_nonneg: "list_all is_digit ds \<Longrightarrow> 0 \<le> int_of_digits ds"
  by (induction ds rule: rev_induct) (auto simp: int_of_digits_snoc int_of_digits_def dest: digit_val_props(1))

lemma int_of_digits_pos:
  "ds \<noteq> [] \<Longrightarrow> list_all is_digit ds \<Longrightarrow> hd ds \<noteq> CHR ''0'' \<Longrightarrow> 0 < int_of_digits ds"
proof (induction ds rule: rev_induct)
  case Nil
  then show ?case by simp
next
  case (snoc c ds)
  show ?case
  proof (cases "ds = []")
    case True
    with snoc.prems digit_val_props [of c] show ?thesis
      by (auto simp: int_of_digits_def)
  next
    case False
    with snoc have "0 < int_of_digits ds" by simp
    moreover have "0 \<le> digit_val c" using snoc.prems by (simp add: digit_val_props)
    ultimately show ?thesis by (simp add: int_of_digits_snoc)
  qed
qed

lemma digits_int_of_digits:
  "ds \<noteq> [] \<Longrightarrow> list_all is_digit ds \<Longrightarrow> ds = ''0'' \<or> hd ds \<noteq> CHR ''0''
     \<Longrightarrow> digits (int_of_digits ds) = ds"
proof (induction ds rule: rev_induct)
  case Nil
  then show ?case by simp
next
  case (snoc c ds)
  have c: "is_digit c" using snoc.prems by simp
  note dv = digit_val_props [OF c]
  show ?case
  proof (cases "ds = []")
    case True
    with dv show ?thesis
      by (simp add: int_of_digits_def digits.simps [of "digit_val c"])
  next
    case False
    with snoc.prems have h: "hd ds \<noteq> CHR ''0''" and a: "list_all is_digit ds" by auto
    from int_of_digits_pos [OF False a h] have p: "0 < int_of_digits ds" .
    let ?n = "10 * int_of_digits ds + digit_val c"
    have "\<not> ?n < 10" using p dv by simp
    moreover have "?n div 10 = int_of_digits ds" "?n mod 10 = digit_val c" using dv by simp_all
    moreover have "digits (int_of_digits ds) = ds" using snoc.IH False a h by simp
    ultimately show ?thesis
      using dv by (simp add: int_of_digits_snoc digits.simps [of ?n])
  qed
qed

lemma array_index_digits: "array_index k = Some n \<Longrightarrow> k = digits n"
  by (auto simp: array_index_def digits_int_of_digits split: if_splits)

lemma array_index_inj: "array_index k = Some n \<Longrightarrow> array_index k' = Some n \<Longrightarrow> k = k'"
  by (drule array_index_digits)+ simp

subsection \<open>The order of own properties\<close>

text \<open>
  The property lists that a JavaScript object can have: no key twice, array indices
  first and ascending, then the other keys. A value is well formed when all its objects
  are.
\<close>

definition key_before :: "string \<Rightarrow> string \<Rightarrow> bool" where
  "key_before k k' =
     (case array_index k of
        Some m \<Rightarrow> (case array_index k' of Some n \<Rightarrow> m < n | None \<Rightarrow> True)
      | None \<Rightarrow> array_index k' = None)"

definition obj_ok :: "jsobject \<Rightarrow> bool" where
  "obj_ok kvs = (distinct (map fst kvs) \<and> sorted_wrt key_before (map fst kvs))"

fun js_wf :: "json \<Rightarrow> bool" where
  "js_wf (JArr xs) = list_all js_wf xs"
| "js_wf (JObj kvs) = (obj_ok kvs \<and> list_all (\<lambda>kv. js_wf (snd kv)) kvs)"
| "js_wf v = True"

lemma obj_ok_prefix: "obj_ok (xs @ ys) \<Longrightarrow> obj_ok xs"
  by (simp add: obj_ok_def sorted_wrt_append)

lemma insert_index_last:
  "\<forall>k' \<in> fst ` set kvs. \<exists>m. array_index k' = Some m \<and> m < n \<Longrightarrow> insert_index n k v kvs = kvs @ [(k, v)]"
  by (induction kvs) auto

lemma obj_define_last:
  assumes "obj_ok (kvs @ [(k, v)])"
  shows "obj_define kvs k v = kvs @ [(k, v)]"
proof -
  from assms have nk: "k \<notin> fst ` set kvs" and b: "\<forall>k' \<in> fst ` set kvs. key_before k' k"
    by (auto simp: obj_ok_def sorted_wrt_append)
  show ?thesis
  proof (cases "array_index k")
    case None
    with nk show ?thesis by (simp add: obj_define_def obj_keys_def)
  next
    case (Some n)
    with b have "\<forall>k' \<in> fst ` set kvs. \<exists>m. array_index k' = Some m \<and> m < n"
      by (auto simp: key_before_def split: option.splits)
    from insert_index_last [OF this] Some nk show ?thesis
      by (simp add: obj_define_def obj_keys_def)
  qed
qed

lemma key_before_trans: "key_before a b \<Longrightarrow> key_before b c \<Longrightarrow> key_before a c"
  by (auto simp: key_before_def split: option.splits)

lemma insert_index_set: "set (insert_index n k v kvs) = insert (k, v) (set kvs)"
  by (induction kvs) (auto split: option.splits if_splits)

lemma insert_index_keys: "fst ` set (insert_index n k v kvs) = insert k (fst ` set kvs)"
  by (simp add: insert_index_set)

lemma insert_index_values: "snd ` set (insert_index n k v kvs) = insert v (snd ` set kvs)"
  by (simp add: insert_index_set)

lemma insert_index_ok:
  assumes "array_index k = Some n" "k \<notin> fst ` set kvs" "obj_ok kvs"
  shows "obj_ok (insert_index n k v kvs)"
  using assms(2,3)
proof (induction kvs)
  case Nil
  show ?case by (simp add: obj_ok_def)
next
  case (Cons kv kvs)
  obtain k' v' where kv: "kv = (k', v')" by (cases kv)
  from Cons.prems have ok': "obj_ok kvs" and nk: "k \<notin> fst ` set kvs" "k \<noteq> k'"
    and d: "k' \<notin> fst ` set kvs" and b: "\<forall>x \<in> fst ` set kvs. key_before k' x"
    by (auto simp: obj_ok_def kv)
  show ?case
  proof (cases "\<exists>m. array_index k' = Some m \<and> m < n")
    case True
    then obtain m where m: "array_index k' = Some m" "m < n" by blast
    have kb: "key_before k' k" using m assms(1) by (simp add: key_before_def)
    from Cons.IH [OF nk(1) ok'] have ih: "obj_ok (insert_index n k v kvs)" .
    from m ih d nk b kb show ?thesis
      by (auto simp: kv obj_ok_def insert_index_keys image_iff)
  next
    case False
    have kb: "key_before k k'"
    proof (cases "array_index k'")
      case None
      then show ?thesis using assms(1) by (simp add: key_before_def)
    next
      case (Some m)
      with False have "n \<le> m" by auto
      moreover have "n \<noteq> m" using array_index_inj [OF assms(1), of k'] Some nk(2) by auto
      ultimately show ?thesis using assms(1) Some by (simp add: key_before_def)
    qed
    then have "\<forall>x \<in> fst ` set kvs. key_before k x"
      using b key_before_trans by blast
    with False kb Cons.prems nk show ?thesis
      by (auto simp: kv obj_ok_def split: option.splits)
  qed
qed

lemma fst_update_comp: "fst \<circ> (\<lambda>(k', v'). if k' = k then (k', v) else (k', v')) = fst"
  by (auto simp: fun_eq_iff)

lemma obj_define_keys: "fst ` set (obj_define kvs k v) = insert k (fst ` set kvs)"
proof (cases "k \<in> fst ` set kvs")
  case True
  have "set (map fst (map (\<lambda>(k', v'). if k' = k then (k', v) else (k', v')) kvs)) = set (map fst kvs)"
    by (simp add: fst_update_comp)
  with True show ?thesis
    by (auto simp: obj_define_def obj_keys_def simp del: map_map)
next
  case False
  then show ?thesis
    by (auto simp: obj_define_def obj_keys_def insert_index_set split: option.splits)
qed

lemma obj_define_values: "snd ` set (obj_define kvs k v) \<subseteq> insert v (snd ` set kvs)"
  by (auto simp: obj_define_def obj_keys_def insert_index_set split: option.splits if_splits)

lemma obj_define_ok: "obj_ok kvs \<Longrightarrow> obj_ok (obj_define kvs k v)"
proof (cases "k \<in> fst ` set kvs")
  case True
  assume "obj_ok kvs"
  with True show ?thesis
    by (simp add: obj_define_def obj_keys_def obj_ok_def fst_update_comp)
next
  case False
  assume ok: "obj_ok kvs"
  show ?thesis
  proof (cases "array_index k")
    case None
    have "\<forall>x \<in> fst ` set kvs. key_before x k"
      using None by (auto simp: key_before_def split: option.splits)
    with ok False None show ?thesis
      by (auto simp: obj_define_def obj_keys_def obj_ok_def sorted_wrt_append)
  next
    case (Some n)
    with insert_index_ok [OF Some False ok] False show ?thesis
      by (simp add: obj_define_def obj_keys_def)
  qed
qed

subsection \<open>Values, arrays and objects\<close>

definition value_start :: "char \<Rightarrow> bool" where
  "value_start c = (c = CHR ''n'' \<or> c = CHR ''t'' \<or> c = CHR ''f'' \<or> c = CHR ''-'' \<or> c = CHR 0x22
      \<or> c = CHR ''['' \<or> c = CHR ''{'' \<or> is_digit c)"

lemma show_int_start: "\<exists>c cs. show_int i = c # cs \<and> (c = CHR ''-'' \<or> is_digit c)"
proof (cases "i < 0")
  case True
  then show ?thesis by (simp add: show_int_def)
next
  case False
  then have "0 \<le> i" by simp
  from digits_props [OF this] show ?thesis
    using False by (cases "digits i") (auto simp: show_int_def)
qed

lemma stringify_start: "\<exists>c cs. JSON_stringify v = c # cs \<and> value_start c"
proof (cases v)
  case (JNum i)
  with show_int_start [of i] show ?thesis by (auto simp: value_start_def)
qed (auto simp: value_start_def quote_def)

lemma skip_ws_start: "\<not> is_json_ws c \<Longrightarrow> skip_ws (c # cs) = c # cs"
  by (simp add: skip_ws_def)

lemma value_start_not_ws: "value_start c \<Longrightarrow> \<not> is_json_ws c"
  by (auto simp: value_start_def is_json_ws_def is_digit_iff)

lemma skip_ws_stringify: "skip_ws (JSON_stringify v @ r) = JSON_stringify v @ r"
  using stringify_start [of v] by (auto simp: skip_ws_start value_start_not_ws)

lemma skip_ws_quote: "skip_ws (quote k @ r) = quote k @ r"
  by (simp add: quote_def skip_ws_start is_json_ws_def)

lemma pv_null: "parse_value (''null'' @ r) = Inr (JNull, r)"
  by (simp add: parse_value.simps parse_literal_def is_digit_iff)

lemma pv_bool: "parse_value ((if b then ''true'' else ''false'') @ r) = Inr (JBool b, r)"
  by (simp add: parse_value.simps parse_literal_def is_digit_iff)

lemma pv_num: 
  assumes "ok_follow r" 
  shows "parse_value (show_int i @ r) = Inr (JNum i, r)"
proof -
  from show_int_start [of i] obtain c cs where c: "show_int i = c # cs" "c = CHR ''-'' \<or> is_digit c"
    by blast
  then have "parse_value (show_int i @ r) = parse_number (show_int i @ r)"
    by (subst parse_value.simps) (auto simp: is_digit_iff)
  with parse_number_show_int [OF assms] show ?thesis by simp
qed

lemma pv_str: "parse_value (quote s @ r) = Inr (JStr s, r)"
proof -
  have q: "quote s @ r = CHR 0x22 # (tl (quote s) @ r)" by (simp add: quote_def)
  show ?thesis
    by (subst q, subst parse_value.simps) (simp add: parse_chars_quote)
qed


lemma ok_follow_simps [simp]:
  "ok_follow []" "ok_follow (CHR '','' # r)" "ok_follow (CHR '']'' # r)" "ok_follow (CHR ''}'' # r)"
  by (simp_all add: ok_follow_def)

lemma stringify_nonempty: "JSON_stringify v \<noteq> []"
  using stringify_start [of v] by auto

lemma stringify_hd_not_close: "hd (JSON_stringify v @ r) \<noteq> CHR '']''"
  using stringify_start [of v] by (auto simp: value_start_def is_digit_iff)

lemma join_Cons_append:
  "join sep (x # xs) @ r = x @ (if xs = [] then r else sep @ join sep xs @ r)"
  by (cases xs) simp_all

lemma parse_elems_join:
  assumes ih: "\<And>x r. x \<in> set xs \<Longrightarrow> ok_follow r \<Longrightarrow> parse_value (JSON_stringify x @ r) = Inr (x, r)"
    and ne: "xs \<noteq> []"
  shows "parse_elems acc (join '','' (map JSON_stringify xs) @ CHR '']'' # r) = Inr (JArr (acc @ xs), r)"
  using ih ne
proof (induction xs arbitrary: acc)
  case Nil
  then show ?case by simp
next
  case (Cons x xs)
  show ?case
  proof (cases xs)
    case Nil
    have "parse_value (JSON_stringify x @ CHR '']'' # r) = Inr (x, CHR '']'' # r)"
      by (rule Cons.prems(1)) simp_all
    then show ?thesis
      using stringify_nonempty [of x]
      by (subst parse_elems.simps) (simp add: Nil skip_ws_start is_json_ws_def)
  next
    case (Cons y ys)
    let ?rest = "join '','' (map JSON_stringify xs) @ CHR '']'' # r"
    have pv: "parse_value (JSON_stringify x @ CHR '','' # ?rest) = Inr (x, CHR '','' # ?rest)"
      by (rule Cons.prems(1)) simp_all
    have sk: "skip_ws ?rest = ?rest"
      unfolding Cons list.map join_Cons_append by (rule skip_ws_stringify)
    have ih': "parse_elems (acc @ [x]) ?rest = Inr (JArr ((acc @ [x]) @ xs), r)"
      by (rule Cons.IH) (simp_all add: Cons.prems(1) Cons)
    have "parse_elems acc (JSON_stringify x @ CHR '','' # ?rest) = Inr (JArr (acc @ x # xs), r)"
      using pv sk ih' stringify_nonempty [of x]
      by (subst parse_elems.simps) (simp add: skip_ws_start is_json_ws_def)
    then show ?thesis by (simp add: Cons)
  qed
qed

definition member_text :: "string \<times> json \<Rightarrow> string" where
  "member_text kv = quote (fst kv) @ '':'' @ JSON_stringify (snd kv)"

lemma member_text_start: "\<exists>cs. member_text kv = CHR 0x22 # cs"
  by (simp add: member_text_def quote_def)

lemma parse_members_join:
  assumes ih: "\<And>k v r. (k, v) \<in> set ms \<Longrightarrow> ok_follow r \<Longrightarrow> parse_value (JSON_stringify v @ r) = Inr (v, r)"
    and ne: "ms \<noteq> []" and ok: "obj_ok (acc @ ms)"
  shows "parse_members acc (join '','' (map member_text ms) @ CHR ''}'' # r) = Inr (JObj (acc @ ms), r)"
  using ih ne ok
proof (induction ms arbitrary: acc)
  case Nil
  then show ?case by simp
next
  case (Cons m ms)
  obtain k v where m: "m = (k, v)" by (cases m)
  have def: "obj_define acc k v = acc @ [(k, v)]"
    using Cons.prems(3) obj_ok_prefix [of "acc @ [(k, v)]" ms] by (simp add: m obj_define_last)
  have step: "parse_members acc (member_text (k, v) @ d # rest) =
      (if d = CHR '','' then parse_members (obj_define acc k v) (skip_ws rest)
       else if d = CHR ''}'' then Inr (JObj (obj_define acc k v), rest) else Inl SyntaxError)"
    if "ok_follow (d # rest)" for d rest
  proof -
    have pv: "parse_value (JSON_stringify v @ d # rest) = Inr (v, d # rest)"
      by (rule Cons.prems(1) [of k]) (simp_all add: m that)
    have t: "member_text (k, v) @ d # rest = CHR 0x22 # (tl (quote k) @ CHR '':'' # JSON_stringify v @ d # rest)"
      by (simp add: member_text_def quote_def)
    have ws: "\<not> is_json_ws d" using that by (auto simp: ok_follow_def is_json_ws_def)
    show ?thesis
      using pv stringify_nonempty [of v] ws
      by (subst t, subst parse_members.simps)
         (simp add: parse_chars_quote skip_ws_start is_json_ws_def skip_ws_stringify)
  qed
  show ?case
  proof (cases ms)
    case Nil
    with step [of "CHR ''}''" r] def show ?thesis by (simp add: m)
  next
    case (Cons m' ms')
    let ?rest = "join '','' (map member_text ms) @ CHR ''}'' # r"
    have sk: "skip_ws ?rest = ?rest"
      unfolding Cons list.map join_Cons_append
      using member_text_start [of m'] by (auto simp: skip_ws_start is_json_ws_def)
    have ih': "parse_members (acc @ [(k, v)]) ?rest = Inr (JObj ((acc @ [(k, v)]) @ ms), r)"
      by (rule Cons.IH) (use Cons.prems in \<open>auto simp: m Cons\<close>)
    from step [of "CHR '',''" ?rest] def sk ih' show ?thesis
      by (simp add: m Cons)
  qed
qed

lemma stringify_obj_text:
  "JSON_stringify (JObj kvs) = CHR ''{'' # join '','' (map member_text kvs) @ ''}''"
  by (simp add: member_text_def [abs_def])

lemma parse_value_stringify:
  "js_wf v \<Longrightarrow> ok_follow r \<Longrightarrow> parse_value (JSON_stringify v @ r) = Inr (v, r)"
proof (induction v arbitrary: r)
  case JNull
  show ?case using pv_null by simp
next
  case (JBool b)
  show ?case using pv_bool [of b r] by simp
next
  case (JNum i)
  then show ?case by (simp add: pv_num)
next
  case (JStr s)
  show ?case by (simp add: pv_str)
next
  case (JArr xs)
  show ?case
  proof (cases xs)
    case Nil
    then show ?thesis
      by (simp add: parse_value.simps skip_ws_start is_json_ws_def)
  next
    case (Cons y ys)
    let ?body = "join '','' (map JSON_stringify xs) @ CHR '']'' # r"
    obtain c cs where c: "JSON_stringify y = c # cs" "value_start c"
      using stringify_start [of y] by blast
    then have b: "?body = c # tl ?body" "c \<noteq> CHR '']''" "\<not> is_json_ws c"
      by (cases ys; auto simp: Cons value_start_def is_digit_iff is_json_ws_def)+
    have "parse_elems [] ?body = Inr (JArr ([] @ xs), r)"
    proof (rule parse_elems_join)
      fix x r' assume "x \<in> set xs" "ok_follow r'"
      with JArr show "parse_value (JSON_stringify x @ r') = Inr (x, r')"
        by (simp add: list_all_iff)
    qed (simp add: Cons)
    then have pe: "parse_elems [] (c # tl ?body) = Inr (JArr xs, r)"
      using b(1) by simp
    have "parse_value (CHR ''['' # ?body) = Inr (JArr xs, r)"
      by (subst parse_value.simps, subst (1 2) b(1)) (simp add: skip_ws_start b(2,3) pe)
    then show ?thesis by simp
  qed
next
  case (JObj kvs)
  show ?case
  proof (cases kvs)
    case Nil
    then show ?thesis
      by (simp add: parse_value.simps skip_ws_start is_json_ws_def)
  next
    case (Cons m ms)
    let ?body = "join '','' (map member_text kvs) @ CHR ''}'' # r"
    have b: "?body = CHR 0x22 # tl ?body"
      using member_text_start [of m] by (cases ms; auto simp: Cons)
    have "parse_members [] ?body = Inr (JObj ([] @ kvs), r)"
    proof (rule parse_members_join)
      fix k v r' assume "(k, v) \<in> set kvs" "ok_follow r'"
      with JObj.IH [of "(k, v)" v r'] JObj.prems(1)
      show "parse_value (JSON_stringify v @ r') = Inr (v, r')"
        by (auto simp: list_all_iff)
    qed (use JObj.prems in \<open>simp_all add: Cons\<close>)
    then have pe: "parse_members [] (CHR 0x22 # tl ?body) = Inr (JObj kvs, r)"
      using b by simp
    have "parse_value (CHR ''{'' # ?body) = Inr (JObj kvs, r)"
      by (subst parse_value.simps, subst (1 2) b) (simp add: skip_ws_start is_json_ws_def pe)
    moreover have "JSON_stringify (JObj kvs) @ r = CHR ''{'' # ?body"
      by (simp add: stringify_obj_text del: JSON_stringify.simps)
    ultimately show ?thesis by (simp del: JSON_stringify.simps)
  qed
qed

lemma skip_ws_Nil: "skip_ws [] = []"
  by (simp add: skip_ws_def)

lemma JSON_parse_stringify: "js_wf v \<Longrightarrow> JSON_parse (JSON_stringify v) = Inr v"
  using parse_value_stringify [of v "[]"] skip_ws_stringify [of v "[]"]
  by (simp add: JSON_parse_def skip_ws_Nil)

section \<open>The canonical form\<close>

lemma foldl_invariant:
  assumes "P a" and "\<And>a x. x \<in> set xs \<Longrightarrow> P a \<Longrightarrow> P (f a x)"
  shows "P (foldl f a xs)"
  using assms by (induction xs arbitrary: a) auto

lemma obj_assign_ok: "obj_ok acc \<Longrightarrow> obj_ok (obj_assign acc k v)"
  by (simp add: obj_assign_def obj_define_ok)

lemma obj_assign_values: "snd ` set (obj_assign acc k v) \<subseteq> insert v (snd ` set acc)"
  using obj_define_values [of acc k v] by (auto simp: obj_assign_def)

lemma obj_assign_member:
  "kv \<in> set (obj_assign acc k v) \<Longrightarrow> snd kv = v \<or> kv \<in> set acc"
  by (auto simp: obj_assign_def obj_define_def insert_index_set split: option.splits if_splits)

lemma js_wf_sortObj: "js_wf (sortObj v)"
proof (induction v rule: sortObj.induct)
  case (1 xs)
  then show ?case by (simp add: list_all_iff)
next
  case (2 kvs)
  let ?P = "\<lambda>acc. obj_ok acc \<and> (\<forall>kv \<in> set acc. js_wf (snd kv))"
  let ?f = "\<lambda>acc k. case obj_get kvs k of Some v \<Rightarrow> obj_assign acc k (sortObj v) | None \<Rightarrow> acc"
  have "?P (foldl ?f [] (sort (obj_keys kvs)))"
  proof (rule foldl_invariant)
    show "?P []" by (simp add: obj_ok_def)
  next
    fix a k assume k: "k \<in> set (sort (obj_keys kvs))" and a: "?P a"
    show "?P (?f a k)"
    proof (cases "obj_get kvs k")
      case None
      with a show ?thesis by simp
    next
      case (Some v)
      from "2.IH" [OF k Some] have wf: "js_wf (sortObj v)" .
      have "js_wf (snd kv)" if "kv \<in> set (obj_assign a k (sortObj v))" for kv
        using obj_assign_member [OF that] a wf by metis
      moreover have "obj_ok (obj_assign a k (sortObj v))"
        using a by (simp add: obj_assign_ok)
      ultimately show ?thesis unfolding Some option.case by blast
    qed
  qed
  then have "obj_ok (foldl ?f [] (sort (obj_keys kvs)))"
    and "list_all (\<lambda>kv. js_wf (snd kv)) (foldl ?f [] (sort (obj_keys kvs)))"
    unfolding list_all_iff by blast+
  then show ?case unfolding sortObj.simps js_wf.simps by blast
qed simp_all

lemma JSON_stringify_inj:
  assumes "js_wf v" "js_wf w" "JSON_stringify v = JSON_stringify w"
  shows "v = w"
proof -
  have "Inr v = JSON_parse (JSON_stringify v)"
    by (rule JSON_parse_stringify [OF assms(1), symmetric])
  also have "\<dots> = JSON_parse (JSON_stringify w)"
    by (simp only: assms(3))
  also have "\<dots> = Inr w"
    by (rule JSON_parse_stringify [OF assms(2)])
  finally show ?thesis by (simp only: sum.inject)
qed

lemma stable_eq_iff: "stable v = stable w \<longleftrightarrow> sortObj v = sortObj w"
proof
  assume "stable v = stable w"
  then have "JSON_stringify (sortObj v) = JSON_stringify (sortObj w)"
    by (simp only: stable_def)
  then show "sortObj v = sortObj w"
    by (rule JSON_stringify_inj [OF js_wf_sortObj js_wf_sortObj])
next
  assume "sortObj v = sortObj w"
  then show "stable v = stable w" by (simp only: stable_def)
qed

text \<open>A key that is no array index and not \<open>__proto__\<close>: assigning it appends a property.\<close>

definition plain_key :: "string \<Rightarrow> bool" where
  "plain_key k = (array_index k = None \<and> k \<noteq> ''__proto__'')"

lemma sortObj_fold_plain:
  assumes "distinct ks" "set ks \<inter> fst ` set acc = {}" "list_all plain_key ks" "set ks \<subseteq> fst ` set kvs"
  shows "foldl (\<lambda>acc k. case obj_get kvs k of Some v \<Rightarrow> obj_assign acc k (sortObj v) | None \<Rightarrow> acc) acc ks
         = acc @ map (\<lambda>k. (k, sortObj (the (obj_get kvs k)))) ks"
  using assms
proof (induction ks arbitrary: acc)
  case Nil
  show ?case by simp
next
  case (Cons k ks)
  from Cons.prems(4) obtain v where v: "obj_get kvs k = Some v"
    by (auto simp: obj_get_def image_iff dest!: weak_map_of_SomeI)
  have pk: "plain_key k" using Cons.prems(3) by simp
  have nk: "k \<notin> fst ` set acc" using Cons.prems(2) by auto
  have st: "obj_assign acc k (sortObj v) = acc @ [(k, sortObj v)]"
    using pk nk by (simp add: obj_assign_def obj_define_def obj_keys_def plain_key_def)
  have "set ks \<inter> fst ` set (acc @ [(k, sortObj v)]) = {}"
    using Cons.prems(1,2) by auto
  from Cons.IH [OF _ this] Cons.prems show ?case
    by (simp add: v st)
qed

lemma sortObj_plain:
  assumes "distinct (map fst kvs)" "list_all plain_key (map fst kvs)"
  shows "sortObj (JObj kvs) = JObj (map (\<lambda>k. (k, sortObj (the (obj_get kvs k)))) (sort (map fst kvs)))"
proof -
  have 1: "distinct (sort (map fst kvs))" using assms(1) by simp
  have 2: "set (sort (map fst kvs)) \<inter> fst ` set ([] :: jsobject) = {}" by simp
  have 3: "list_all plain_key (sort (map fst kvs))"
    using assms(2) by (simp add: list_all_iff)
  have 4: "set (sort (map fst kvs)) \<subseteq> fst ` set kvs" by simp
  show ?thesis
    unfolding sortObj.simps obj_keys_def sortObj_fold_plain [OF 1 2 3 4] by simp
qed

lemma stable_plain_eqD:
  assumes "distinct (map fst A)" "list_all plain_key (map fst A)" "map fst B = map fst A"
    and "stable (JObj A) = stable (JObj B)" and "k \<in> fst ` set A"
  shows "sortObj (the (obj_get A k)) = sortObj (the (obj_get B k))"
proof -
  let ?ks = "sort (map fst A)"
  from assms(4) have "sortObj (JObj A) = sortObj (JObj B)" by (simp only: stable_eq_iff)
  moreover have "sortObj (JObj A) = JObj (map (\<lambda>k. (k, sortObj (the (obj_get A k)))) ?ks)"
    by (rule sortObj_plain [OF assms(1,2)])
  moreover have "sortObj (JObj B) = JObj (map (\<lambda>k. (k, sortObj (the (obj_get B k)))) ?ks)"
    using sortObj_plain [of B] assms(1,2) unfolding assms(3) by blast
  ultimately have "map (\<lambda>k. (k, sortObj (the (obj_get A k)))) ?ks
      = map (\<lambda>k. (k, sortObj (the (obj_get B k)))) ?ks" by (simp only: json.inject)
  moreover have "k \<in> set ?ks" using assms(5) by simp
  ultimately show ?thesis unfolding map_eq_conv by blast
qed

section \<open>The lines of a log file\<close>

lemma escape_char_no_LF: "CHR 0x0A \<notin> set (escape_char c)"
proof -
  have h: "hex_digit d \<noteq> CHR 0x0A" if "0 \<le> d" "d < 16" for d
    using that by (simp add: hex_digit_def char_eq_iff_int del: of_char_eq_iff)
  have "0 \<le> (of_char c :: int)" by (rule of_char_int_bounds)
  then have "hex_digit (of_char c div 16) \<noteq> CHR 0x0A" if "(of_char c :: int) < 32"
    using that by (intro h) simp_all
  moreover have "hex_digit (of_char c mod 16) \<noteq> CHR 0x0A"
    by (intro h) simp_all
  ultimately show ?thesis
    by (auto simp: escape_char_def)
qed

lemma quote_no_LF: "CHR 0x0A \<notin> set (quote s)"
  using escape_char_no_LF by (auto simp: quote_def)

lemma digits_no_LF: "0 \<le> n \<Longrightarrow> CHR 0x0A \<notin> set (digits n)"
  using digits_props [of n] by (auto simp: list_all_iff is_digit_iff)

lemma show_int_no_LF: "CHR 0x0A \<notin> set (show_int i)"
  using digits_no_LF [of i] digits_no_LF [of "- i"] by (simp add: show_int_def)

lemma join_set: "set (join sep xs) \<subseteq> set sep \<union> \<Union> (set ` set xs)"
  by (induction sep xs rule: join.induct) auto

lemma stringify_no_LF: "CHR 0x0A \<notin> set (JSON_stringify v)"
proof (induction v)
  case (JArr xs)
  have "CHR 0x0A \<notin> set (join '','' (map JSON_stringify xs))"
    using join_set [of "'',''" "map JSON_stringify xs"] JArr by auto
  then show ?case by simp
next
  case (JObj kvs)
  have "CHR 0x0A \<notin> set (member_text kv)" if "kv \<in> set kvs" for kv
    using JObj [of kv "snd kv"] that quote_no_LF [of "fst kv"]
    by (cases kv) (auto simp: member_text_def)
  then have "CHR 0x0A \<notin> set (join '','' (map member_text kvs))"
    using join_set [of "'',''" "map member_text kvs"] by auto
  then show ?case by (simp add: stringify_obj_text del: JSON_stringify.simps)
qed (simp_all add: quote_no_LF show_int_no_LF)


text \<open>The text of a file made of the given lines, each ended by a line feed.\<close>

definition log_text :: "string list \<Rightarrow> string" where
  "log_text ls = concat (map (\<lambda>l. l @ [CHR 0x0A]) ls)"

definition good_line :: "string \<Rightarrow> bool" where
  "good_line l = (l \<noteq> [] \<and> CHR 0x0A \<notin> set l \<and> \<not> is_js_space (hd l) \<and> \<not> is_js_space (last l))"


lemma split_lines_no_LF: "CHR 0x0A \<notin> set l \<Longrightarrow> split_lines l = [l]"
  by (induction l) auto

lemma split_lines_append_LF:
  "CHR 0x0A \<notin> set l \<Longrightarrow> split_lines (l @ CHR 0x0A # rest) = l # split_lines rest"
  by (induction l) auto


lemma trim_good:
  assumes "s \<noteq> []" "\<not> is_js_space (hd s)" "\<not> is_js_space (last s)"
  shows "trim (s @ [CHR 0x0A]) = s"
proof -
  obtain c cs where s: "s = c # cs" using assms(1) by (cases s) auto
  have 1: "dropWhile is_js_space (s @ [CHR 0x0A]) = s @ [CHR 0x0A]"
    using assms(2) by (simp add: s)
  obtain d ds where r: "rev s = d # ds" using assms(1) by (cases "rev s") auto
  then have "d = last s" using hd_rev [of s] by simp
  then have 2: "dropWhile is_js_space (rev s) = rev s"
    using assms(3) unfolding r by simp
  have 3: "is_js_space (CHR 0x0A)" by (simp add: is_js_space_def)
  show ?thesis
    unfolding trim_def 1 by (simp add: 2 3)
qed

lemma log_text_Cons: "log_text (l # ls) = l @ CHR 0x0A # log_text ls"
  by (simp add: log_text_def)

lemma split_lines_log_text:
  "list_all good_line ls \<Longrightarrow> split_lines (log_text ls) = ls @ [[]]"
  by (induction ls) (simp_all add: log_text_def good_line_def split_lines_append_LF)

lemma file_lines_log_text:
  assumes "list_all good_line ls"
  shows "file_lines (log_text ls) = ls"
proof (cases ls rule: rev_cases)
  case Nil
  then show ?thesis by (simp add: file_lines_def log_text_def trim_def)
next
  case (snoc ks l)
  let ?body = "log_text ks @ l"
  have t: "log_text ls = ?body @ [CHR 0x0A]"
    by (simp add: snoc log_text_def)
  have gl: "good_line l" and gk: "list_all good_line ks" using assms snoc by simp_all
  have ne: "?body \<noteq> []" using gl by (simp add: good_line_def)
  have la: "\<not> is_js_space (last ?body)" using gl by (simp add: good_line_def)
  have hd: "\<not> is_js_space (hd ?body)"
  proof (cases ks)
    case Nil
    then show ?thesis using gl by (simp add: log_text_def good_line_def)
  next
    case (Cons k ks')
    then have "good_line k" using gk by simp
    then show ?thesis by (cases k) (simp_all add: Cons log_text_Cons good_line_def)
  qed
  have sp: "split_lines ?body = ks @ [l]"
    using gk gl
  proof (induction ks)
    case Nil
    then show ?case by (simp add: log_text_def good_line_def split_lines_no_LF)
  next
    case (Cons k ks)
    then show ?case
      by (simp add: log_text_Cons good_line_def split_lines_append_LF)
  qed
  have "filter (\<lambda>l. l \<noteq> []) ls = ls"
    using assms by (auto simp: filter_id_conv list_all_iff good_line_def)
  then show ?thesis
    unfolding file_lines_def t trim_good [OF ne hd la] sp by (simp add: snoc)
qed

lemma good_line_obj: "good_line (JSON_stringify (JObj kvs))"
proof -
  have "CHR 0x0A \<notin> set (JSON_stringify (JObj kvs))" by (rule stringify_no_LF)
  then show ?thesis
    unfolding good_line_def by (simp add: is_js_space_def)
qed

section \<open>The builder's log and the verifier\<close>

text \<open>The lines that the builder's calls write, as values.\<close>

fun chain_lines :: "(string \<Rightarrow> string) \<Rightarrow> string option \<Rightarrow> int \<Rightarrow> TaskAttestation list \<Rightarrow> json list" where
  "chain_lines sha256 prevHash idx [] = []"
| "chain_lines sha256 prevHash idx (r # rs) =
     chain_line r idx prevHash (sha256 (contentToHash r prevHash))
       # chain_lines sha256 (Some (sha256 (contentToHash r prevHash))) (idx + 1) rs"

lemma array_index_letter: "\<not> is_digit c \<Longrightarrow> array_index (c # cs) = None"
  by (simp add: array_index_def)

lemma rec_keys: "map fst (rec_obj r) = [''run_id'', ''task_id'', ''model'', ''dataset_sha256'',
     ''prompt_sha256'', ''code_sha256'', ''pass'', ''timestamp'']"
  by (simp add: rec_obj_def)

lemma plain_simps:
  "plain_key ''run_id''" "plain_key ''task_id''" "plain_key ''model''" "plain_key ''dataset_sha256''"
  "plain_key ''prompt_sha256''" "plain_key ''code_sha256''" "plain_key ''pass''" "plain_key ''timestamp''"
  "plain_key ''idx''" "plain_key ''prevHash''" "plain_key ''hash''"
  by (simp_all add: plain_key_def array_index_letter is_digit_iff)

lemma obj_define_plain_new:
  "plain_key k \<Longrightarrow> k \<notin> set (map fst kvs) \<Longrightarrow> obj_define kvs k v = kvs @ [(k, v)]"
  by (simp add: obj_define_def obj_keys_def plain_key_def)

lemma chain_line_eq:
  "chain_line r i p h = JObj (rec_obj r @ [(''idx'', JNum i), (''prevHash'', nullable p), (''hash'', JStr h)])"
  by (simp add: chain_line_def obj_define_plain_new plain_simps rec_keys)

lemma hash_input_eq:
  "obj_define (rec_obj r) ''prevHash'' v = rec_obj r @ [(''prevHash'', v)]"
  by (simp add: obj_define_plain_new plain_simps rec_keys)

lemma obj_ok_plain: "distinct (map fst kvs) \<Longrightarrow> list_all plain_key (map fst kvs) \<Longrightarrow> obj_ok kvs"
proof -
  assume d: "distinct (map fst kvs)" and p: "list_all plain_key (map fst kvs)"
  have "sorted_wrt key_before ks" if "list_all plain_key ks" for ks
    using that by (induction ks) (auto simp: key_before_def plain_key_def list_all_iff)
  with d p show ?thesis by (simp add: obj_ok_def)
qed

lemma js_wf_nullable: "js_wf (nullable p)"
  by (cases p) (simp_all add: nullable_def)

lemma js_wf_chain_line: "js_wf (chain_line r i p h)"
proof -
  have "obj_ok (rec_obj r @ [(''idx'', JNum i), (''prevHash'', nullable p), (''hash'', JStr h)])"
    by (rule obj_ok_plain) (simp_all add: rec_keys plain_simps)
  then show ?thesis
    by (simp add: chain_line_eq js_wf_nullable) (simp add: rec_obj_def)
qed

lemma chain_line_fields:
  "obj_get (rec_obj r @ [(''idx'', JNum i), (''prevHash'', q), (''hash'', h)]) ''hash'' = Some h"
  "obj_get (rec_obj r @ [(''idx'', JNum i), (''prevHash'', q), (''hash'', h)]) ''idx'' = Some (JNum i)"
  "obj_get (rec_obj r @ [(''idx'', JNum i), (''prevHash'', q), (''hash'', h)]) ''prevHash'' = Some q"
  "rest_of (rec_obj r @ [(''idx'', JNum i), (''prevHash'', q), (''hash'', h)]) = rec_obj r"
  by (simp_all add: obj_get_def rest_of_def rec_obj_def)

lemma appendFileSync_content:
  "appendFileSync fs path d path = Some ((case fs path of None \<Rightarrow> [] | Some old \<Rightarrow> old) @ d)"
  by (simp add: appendFileSync_def)

lemma append_all_content:
  "fs path = Some old \<Longrightarrow>
   fst (append_all sha256 path fs p i rs) path
     = Some (old @ log_text (map JSON_stringify (chain_lines sha256 p i rs)))"
proof (induction rs arbitrary: fs p i old)
  case Nil
  then show ?case by (simp add: log_text_def)
next
  case (Cons r rs)
  let ?l = "JSON_stringify (chain_line r i p (sha256 (contentToHash r p))) @ [CHR 0x0A]"
  have "appendFileSync fs path ?l path = Some (old @ ?l)"
    using Cons.prems by (simp add: appendFileSync_def)
  from Cons.IH [of "appendFileSync fs path ?l" "old @ ?l", OF this] show ?case
    by (simp add: appendRecord_def Let_def log_text_Cons del: JSON_stringify.simps)
qed

lemma build_chain_content:
  "build_chain sha256 fs path recs path
     = Some (log_text (map JSON_stringify (chain_lines sha256 None 0 recs)))"
  by (simp add: build_chain_def append_all_content startChain_def writeFileSync_def)

lemma verify_loop_chain:
  "verify_loop sha256 p (map JSON_stringify (chain_lines sha256 p i rs)) = None"
proof (induction rs arbitrary: p i)
  case Nil
  show ?case by simp
next
  case (Cons r rs)
  let ?h = "sha256 (contentToHash r p)"
  have parse: "JSON_parse (JSON_stringify (chain_line r i p ?h)) = Inr (chain_line r i p ?h)"
    by (rule JSON_parse_stringify [OF js_wf_chain_line])
  show ?case
    unfolding chain_lines.simps list.map verify_loop.simps parse
    by (simp add: chain_line_eq chain_line_fields Let_def contentToHash_def Cons.IH del: JSON_stringify.simps)
qed

lemma chain_lines_good: "list_all good_line (map JSON_stringify (chain_lines sha256 p i rs))"
  by (induction rs arbitrary: p i) (simp_all add: chain_line_eq good_line_obj del: JSON_stringify.simps)

lemma length_chain_lines: "length (chain_lines sha256 p i rs) = length rs"
  by (induction rs arbitrary: p i) simp_all

text \<open>The string that the verifier hashes for a line with the properties \<open>kvs\<close>.\<close>

definition hash_input :: "jsobject \<Rightarrow> string option \<Rightarrow> string" where
  "hash_input kvs prevHash = stable (JObj (obj_define (rest_of kvs) ''prevHash'' (nullable prevHash)))"

text \<open>The hash that the builder returns last, after the given records.\<close>

definition chain_last :: "(string \<Rightarrow> string) \<Rightarrow> string option \<Rightarrow> TaskAttestation list \<Rightarrow> string option" where
  "chain_last sha256 prevHash rs = foldl (\<lambda>p r. Some (sha256 (contentToHash r p))) prevHash rs"

lemma verify_loop_obj:
  assumes "js_wf (JObj kvs)"
  shows "verify_loop sha256 p (JSON_stringify (JObj kvs) # ls) =
     (if obj_get kvs ''prevHash'' \<noteq> Some (nullable p) then Some (ChainBreak (obj_get kvs ''idx''))
      else if Some (JStr (sha256 (hash_input kvs p))) \<noteq> obj_get kvs ''hash''
        then Some (HashMismatch (obj_get kvs ''idx''))
      else verify_loop sha256 (Some (sha256 (hash_input kvs p))) ls)"
  unfolding verify_loop.simps JSON_parse_stringify [OF assms]
  by (simp add: Let_def hash_input_def)

lemma verify_loop_prefix:
  "verify_loop sha256 p (map JSON_stringify (chain_lines sha256 p i rs) @ ms)
     = verify_loop sha256 (chain_last sha256 p rs) ms"
proof (induction rs arbitrary: p i)
  case Nil
  show ?case by (simp add: chain_last_def)
next
  case (Cons r rs)
  let ?h = "sha256 (contentToHash r p)"
  have wf: "js_wf (JObj (rec_obj r @ [(''idx'', JNum i), (''prevHash'', nullable p), (''hash'', JStr ?h)]))"
    using js_wf_chain_line [of r i p ?h] by (simp only: chain_line_eq)
  have hi: "hash_input (rec_obj r @ [(''idx'', JNum i), (''prevHash'', nullable p), (''hash'', JStr ?h)]) p
            = contentToHash r p"
    by (simp add: hash_input_def contentToHash_def chain_line_fields)
  show ?case
    unfolding chain_lines.simps list.map append_Cons chain_line_eq verify_loop_obj [OF wf]
    using Cons.IH [of "Some ?h" "i + 1"]
    by (simp add: chain_line_fields hi chain_last_def)
qed

lemma chain_lines_append:
  "chain_lines sha256 p i (rs1 @ rs2)
     = chain_lines sha256 p i rs1 @ chain_lines sha256 (chain_last sha256 p rs1) (i + int (length rs1)) rs2"
  by (induction rs1 arbitrary: p i) (simp_all add: chain_last_def ac_simps)

lemma file_lines_built:
  "file_lines (log_text (map JSON_stringify (chain_lines sha256 p i rs)))
     = map JSON_stringify (chain_lines sha256 p i rs)"
  by (rule file_lines_log_text [OF chain_lines_good])

lemma sortObj_scalar:
  "sortObj v = JNull \<Longrightarrow> v = JNull" 
  "sortObj v = JStr s \<Longrightarrow> v = JStr s"
  "sortObj v = JBool b \<Longrightarrow> v = JBool b"
  "sortObj v = JNum n \<Longrightarrow> v = JNum n"
  by (cases v; simp)+

lemma hash_inputs_differ:
  "contentToHash r (Some h) \<noteq> contentToHash r' None"
proof
  assume e: "contentToHash r (Some h) = contentToHash r' None"
  let ?A = "rec_obj r @ [(''prevHash'', JStr h)]" and ?B = "rec_obj r' @ [(''prevHash'', JNull)]"
  have "stable (JObj ?A) = stable (JObj ?B)"
    using e by (simp add: contentToHash_def hash_input_eq nullable_def)
  then have "sortObj (the (obj_get ?A ''prevHash'')) = sortObj (the (obj_get ?B ''prevHash''))"
    by (rule stable_plain_eqD [rotated 3]) (simp_all add: rec_keys plain_simps)
  then show False by (simp add: obj_get_def rec_obj_def)
qed

definition demo_rec :: "string \<Rightarrow> bool \<Rightarrow> TaskAttestation" where
  "demo_rec t p =
     \<lparr>run_id = ''1700000000000'', task_id = t, model = ''m'', dataset_sha256 = ''d'',
      prompt_sha256 = ''p'', code_sha256 = ''c'', pass = p,
      timestamp = ''2024-01-01T00:00:00.000Z''\<rparr>"

text \<open>
  C1: the log that \<open>startChain\<close> and a sequence of \<open>appendRecord\<close> calls leave (the first
  \<open>prevHash\<close> is \<open>null\<close>, every later one the hash returned before, \<open>idx\<close> counting
  from 0) passes the verifier, which reports as many records as were appended. This
  holds for every hash function.
\<close>

theorem built_chain_verifies:
  assumes "path \<noteq> []"
  shows "verify sha256 (build_chain sha256 fs path recs) (Some path) = Ok (length recs)"
  using assms
  by (simp add: verify_def build_chain_content verify_content_def
        file_lines_log_text [OF chain_lines_good] verify_loop_chain length_chain_lines)

theorem built_chain_verifies_witness:
  "''log.jsonl'' \<noteq> []
   \<and> verify (\<lambda>s. s) (build_chain (\<lambda>s. s) Map.empty ''log.jsonl''
        [demo_rec ''t0'' True, demo_rec ''t1'' False, demo_rec ''t2'' True]) (Some ''log.jsonl'')
     = Ok 3"
  using built_chain_verifies [of "''log.jsonl''" "\<lambda>s. s" Map.empty
      "[demo_rec ''t0'' True, demo_rec ''t1'' False, demo_rec ''t2'' True]"]
  by simp

section \<open>Tampering with a log\<close>

text \<open>Removing the entry at position \<open>i\<close> from a log file.\<close>

definition delete_entry :: "nat \<Rightarrow> string \<Rightarrow> string" where
  "delete_entry i content = (let ls = file_lines content in log_text (take i ls @ drop (Suc i) ls))"

lemma deleted_entry_verdict:
  assumes "path \<noteq> []"
    and "fs1 = build_chain sha256 fs path [r0, r1, r2]"
    and "fs1 path = Some content"
    and "inj_on sha256 {contentToHash r0 None, contentToHash r1 (Some (sha256 (contentToHash r0 None)))}"
  shows "verify sha256 (fs1(path \<mapsto> delete_entry 1 content)) (Some path) = ChainBreak (Some (JNum 2))"
proof -
  let ?h0 = "sha256 (contentToHash r0 None)"
  let ?h1 = "sha256 (contentToHash r1 (Some ?h0))"
  let ?h2 = "sha256 (contentToHash r2 (Some ?h1))"
  let ?l0 = "chain_line r0 0 None ?h0" and ?l2 = "chain_line r2 2 (Some ?h1) ?h2"
  have c: "content = log_text (map JSON_stringify (chain_lines sha256 None 0 [r0, r1, r2]))"
    using assms(2,3) by (simp add: build_chain_content)
  have d: "delete_entry (Suc 0) content = log_text (map JSON_stringify [?l0, ?l2])"
    unfolding c delete_entry_def file_lines_built by (simp add: Let_def)
  have g: "list_all good_line (map JSON_stringify [?l0, ?l2])"
    by (simp add: chain_line_eq good_line_obj del: JSON_stringify.simps)
  have ne: "?h1 \<noteq> ?h0"
    using assms(4) hash_inputs_differ [of r1 ?h0 r0] by (auto simp: inj_on_def)
  have v0: "verify_loop sha256 None (map JSON_stringify (chain_lines sha256 None 0 [r0]) @ [JSON_stringify ?l2])
      = verify_loop sha256 (Some ?h0) [JSON_stringify ?l2]"
    unfolding verify_loop_prefix by (simp add: chain_last_def)
  have wf2: "js_wf (JObj (rec_obj r2 @ [(''idx'', JNum 2), (''prevHash'', nullable (Some ?h1)), (''hash'', JStr ?h2)]))"
    using js_wf_chain_line [of r2 2 "Some ?h1" ?h2] by (simp only: chain_line_eq)
  have v2: "verify_loop sha256 (Some ?h0) [JSON_stringify ?l2] = Some (ChainBreak (Some (JNum 2)))"
    unfolding chain_line_eq verify_loop_obj [OF wf2]
    using ne by (simp add: chain_line_fields nullable_def)
  have "verify_loop sha256 None (map JSON_stringify [?l0, ?l2]) = Some (ChainBreak (Some (JNum 2)))"
    using v0 v2 by (simp del: JSON_stringify.simps verify_loop.simps)
  moreover have "file_lines (delete_entry (Suc 0) content) = map JSON_stringify [?l0, ?l2]"
    unfolding d by (rule file_lines_log_text [OF g])
  ultimately have "verify_content sha256 (delete_entry (Suc 0) content) = ChainBreak (Some (JNum 2))"
    unfolding verify_content_def by (simp only: Let_def option.case)
  then show ?thesis
    using assms(1) by (simp add: verify_def)
qed


text \<open>Replacing the value of the field \<open>k\<close> of an object, and of an entry of a log file.\<close>

definition mutate_field :: "jsobject \<Rightarrow> string \<Rightarrow> json \<Rightarrow> jsobject" where
  "mutate_field kvs k v = map (\<lambda>kv. if fst kv = k then (k, v) else kv) kvs"

definition mutate_entry :: "nat \<Rightarrow> string \<Rightarrow> json \<Rightarrow> string \<Rightarrow> string" where
  "mutate_entry i k v content =
     (let ls = file_lines content
      in if i < length ls then
           (case JSON_parse (ls ! i) of
              Inr (JObj kvs) \<Rightarrow> log_text (ls[i := JSON_stringify (JObj (mutate_field kvs k v))])
            | _ \<Rightarrow> content)
         else content)"

text \<open>The properties of the line that the builder writes for a record.\<close>

definition line_props :: "TaskAttestation \<Rightarrow> int \<Rightarrow> string option \<Rightarrow> string \<Rightarrow> jsobject" where
  "line_props r i p h = rec_obj r @ [(''idx'', JNum i), (''prevHash'', nullable p), (''hash'', JStr h)]"

lemma mutate_field_keys: "map fst (mutate_field kvs k v) = map fst kvs"
  by (induction kvs) (auto simp: mutate_field_def)

lemma mutate_field_get_other: "k' \<noteq> k \<Longrightarrow> obj_get (mutate_field kvs k v) k' = obj_get kvs k'"
  by (induction kvs) (auto simp: mutate_field_def obj_get_def)

lemma mutate_field_get_same: "k \<in> fst ` set kvs \<Longrightarrow> obj_get (mutate_field kvs k v) k = Some v"
  by (induction kvs) (auto simp: mutate_field_def obj_get_def)

lemma mutate_field_filter:
  "filter (\<lambda>kv. Q (fst kv)) (mutate_field kvs k v) = mutate_field (filter (\<lambda>kv. Q (fst kv)) kvs) k v"
  by (induction kvs) (auto simp: mutate_field_def)

lemma mutate_field_rest: "rest_of (mutate_field kvs k v) = mutate_field (rest_of kvs) k v"
  unfolding rest_of_def
  by (rule mutate_field_filter [of "\<lambda>x. x \<noteq> ''hash'' \<and> x \<noteq> ''idx'' \<and> x \<noteq> ''prevHash''"])

lemma mutate_field_absent: "k \<notin> fst ` set kvs \<Longrightarrow> mutate_field kvs k v = kvs"
  by (induction kvs) (auto simp: mutate_field_def)

lemma mutate_field_wf:
  assumes "js_wf (JObj kvs)" "js_wf v"
  shows "js_wf (JObj (mutate_field kvs k v))"
proof -
  have "obj_ok (mutate_field kvs k v)"
    using assms(1) by (simp add: obj_ok_def mutate_field_keys)
  moreover have "list_all (\<lambda>kv. js_wf (snd kv)) (mutate_field kvs k v)"
    using assms by (auto simp: list_all_iff mutate_field_def)
  ultimately show ?thesis by simp
qed

lemma line_props_wf: "js_wf (JObj (line_props r i p h))"
  using js_wf_chain_line [of r i p h] by (simp only: chain_line_eq line_props_def)

lemma line_props_fields:
  "obj_get (line_props r i p h) ''hash'' = Some (JStr h)"
  "obj_get (line_props r i p h) ''idx'' = Some (JNum i)"
  "obj_get (line_props r i p h) ''prevHash'' = Some (nullable p)"
  "rest_of (line_props r i p h) = rec_obj r"
  "hash_input (line_props r i p h) q = contentToHash r q"
  by (simp_all add: line_props_def chain_line_fields hash_input_def contentToHash_def)

lemma line_props_keys:
  "map fst (line_props r i p h) = [''run_id'', ''task_id'', ''model'', ''dataset_sha256'',
     ''prompt_sha256'', ''code_sha256'', ''pass'', ''timestamp'', ''idx'', ''prevHash'', ''hash'']"
  by (simp add: line_props_def rec_keys)

text \<open>The log of the builder around its entry \<open>i\<close>.\<close>

lemma chain_lines_split:
  assumes "i < length recs"
  shows "chain_lines sha256 None 0 recs =
           chain_lines sha256 None 0 (take i recs)
           @ JObj (line_props (recs ! i) (int i) (chain_last sha256 None (take i recs))
                    (sha256 (contentToHash (recs ! i) (chain_last sha256 None (take i recs)))))
           # chain_lines sha256 (Some (sha256 (contentToHash (recs ! i) (chain_last sha256 None (take i recs)))))
               (int i + 1) (drop (Suc i) recs)"
proof -
  have "recs = take i recs @ recs ! i # drop (Suc i) recs"
    using assms by (rule id_take_nth_drop)
  then have "chain_lines sha256 None 0 recs = chain_lines sha256 None 0 (take i recs @ recs ! i # drop (Suc i) recs)"
    by simp
  also have "\<dots> = chain_lines sha256 None 0 (take i recs)
           @ chain_lines sha256 (chain_last sha256 None (take i recs)) (int i) (recs ! i # drop (Suc i) recs)"
    unfolding chain_lines_append using assms by simp
  finally show ?thesis
    by (simp add: chain_line_eq line_props_def)
qed


lemma length_chain_lines_take:
  "i < length recs \<Longrightarrow> length (chain_lines sha256 p j (take i recs)) = i"
  by (simp add: length_chain_lines)

lemma mutated_log_lines:
  assumes i: "i < length recs" and v: "js_wf v"
    and p_def: "p = chain_last sha256 None (take i recs)"
    and h_def: "h = sha256 (contentToHash (recs ! i) p)"
    and L_def: "L = line_props (recs ! i) (int i) p h"
    and pre_def: "pre = map JSON_stringify (chain_lines sha256 None 0 (take i recs))"
    and post_def: "post = map JSON_stringify (chain_lines sha256 (Some h) (int i + 1) (drop (Suc i) recs))"
    and content_def: "content = log_text (map JSON_stringify (chain_lines sha256 None 0 recs))"
  shows "file_lines content = pre @ JSON_stringify (JObj L) # post"
    and "file_lines (mutate_entry i k v content) = pre @ JSON_stringify (JObj (mutate_field L k v)) # post"
    and "verify_loop sha256 None (pre @ ms) = verify_loop sha256 p ms"
    and "verify_loop sha256 (Some h) post = None"
    and "length (pre @ l # post) = length recs"
proof -
  have split: "chain_lines sha256 None 0 recs
      = chain_lines sha256 None 0 (take i recs) @ JObj L # chain_lines sha256 (Some h) (int i + 1) (drop (Suc i) recs)"
    unfolding L_def h_def p_def by (rule chain_lines_split [OF i])
  have lp: "length pre = i" unfolding pre_def using i by (simp add: length_chain_lines)
  show fl: "file_lines content = pre @ JSON_stringify (JObj L) # post"
    unfolding content_def file_lines_built unfolding split pre_def post_def by simp
  have parse: "JSON_parse ((pre @ JSON_stringify (JObj L) # post) ! i) = Inr (JObj L)"
    unfolding nth_append_length [of pre, unfolded lp]
    by (rule JSON_parse_stringify) (simp only: L_def line_props_wf)
  have il: "i < length (pre @ JSON_stringify (JObj L) # post)" by (simp add: lp)
  have me: "mutate_entry i k v content
      = log_text (pre @ JSON_stringify (JObj (mutate_field L k v)) # post)"
    unfolding mutate_entry_def fl Let_def parse
    using il list_update_length [of pre _ post, unfolded lp] 
    by (simp del: JSON_stringify.simps)
  have good: "list_all good_line (pre @ JSON_stringify (JObj (mutate_field L k v)) # post)"
    unfolding pre_def post_def
    using chain_lines_good by (simp add: good_line_obj del: JSON_stringify.simps)
  show "file_lines (mutate_entry i k v content) = pre @ JSON_stringify (JObj (mutate_field L k v)) # post"
    unfolding me by (rule file_lines_log_text [OF good])
  show "verify_loop sha256 None (pre @ ms) = verify_loop sha256 p ms"
    unfolding pre_def p_def by (rule verify_loop_prefix)
  show "verify_loop sha256 (Some h) post = None"
    unfolding post_def by (rule verify_loop_chain)
  show "length (pre @ l # post) = length recs"
    unfolding pre_def post_def using i by (simp add: length_chain_lines)
qed


lemma rec_obj_scalar:
  "obj_get (rec_obj r) k = Some old \<Longrightarrow> sortObj old = old \<and> (\<forall>w. sortObj w = old \<longrightarrow> w = old)"
  by (auto simp: obj_get_def rec_obj_def sortObj_scalar split: if_splits)

lemma rec_obj_keys_set:
  "k \<in> fst ` set (rec_obj r) \<Longrightarrow> k \<noteq> ''idx'' \<and> k \<noteq> ''prevHash'' \<and> k \<noteq> ''hash''"
  "''idx'' \<notin> fst ` set (rec_obj r)" "''prevHash'' \<notin> fst ` set (rec_obj r)" "''hash'' \<notin> fst ` set (rec_obj r)"
  by (auto simp: rec_obj_def)

lemma hash_input_mutated:
  "hash_input (mutate_field (line_props r i p h) k v) q
     = stable (JObj (mutate_field (rec_obj r) k v @ [(''prevHash'', nullable q)]))"
proof -
  have "''prevHash'' \<notin> set (map fst (mutate_field (rec_obj r) k v))"
    unfolding mutate_field_keys by (simp add: rec_keys)
  then show ?thesis
    unfolding hash_input_def mutate_field_rest line_props_fields
    by (simp add: obj_define_plain_new plain_simps)
qed

lemma mutated_content_changes_hash_input:
  assumes k: "k \<in> fst ` set (rec_obj r)" and old: "obj_get (rec_obj r) k = Some old" and ne: "v \<noteq> old"
  shows "hash_input (mutate_field (line_props r i p h) k v) q \<noteq> hash_input (line_props r i p h) q"
proof
  let ?A = "rec_obj r @ [(''prevHash'', nullable q)]"
  let ?B = "mutate_field (rec_obj r) k v @ [(''prevHash'', nullable q)]"
  assume "hash_input (mutate_field (line_props r i p h) k v) q = hash_input (line_props r i p h) q"
  then have e: "stable (JObj ?A) = stable (JObj ?B)"
    unfolding hash_input_mutated line_props_fields contentToHash_def hash_input_eq by simp
  have kA: "k \<in> fst ` set ?A" using k by simp
  have "sortObj (the (obj_get ?A k)) = sortObj (the (obj_get ?B k))"
    by (rule stable_plain_eqD [OF _ _ _ e kA]) (simp_all add: rec_keys plain_simps mutate_field_keys)
  moreover have "obj_get ?A k = Some old"
    using old by (simp add: obj_get_def)
  moreover have "obj_get ?B k = Some v"
    using mutate_field_get_same [OF k, of v] k by (simp add: obj_get_def)
  ultimately have "sortObj old = sortObj v" by simp
  with rec_obj_scalar [OF old] ne show False by metis
qed

text \<open>
  C4, as the code has it: when the entry at position 1 is deleted from a log of three
  entries that the builder wrote, the verifier reports a chain break and names idx 2, the
  idx that the first mismatching line declares (the builder's third entry, now at position
  1), provided the hashes of the first two entries do not collide.
\<close>

theorem deleted_entry_reports_declared_idx:
  assumes "path \<noteq> []"
    and "fs1 = build_chain sha256 fs path [r0, r1, r2]"
    and "fs1 path = Some content"
    and "inj_on sha256 {contentToHash r0 None, contentToHash r1 (Some (sha256 (contentToHash r0 None)))}"
  shows "verify sha256 (fs1(path \<mapsto> delete_entry 1 content)) (Some path) = ChainBreak (Some (JNum 2))"
  using assms by (rule deleted_entry_verdict)

definition demo_log :: files where
  "demo_log = build_chain (\<lambda>s. s) Map.empty ''log.jsonl''
     [demo_rec ''t0'' True, demo_rec ''t1'' False, demo_rec ''t2'' True]"

lemma demo_log_content:
  "demo_log ''log.jsonl'' = Some (log_text (map JSON_stringify (chain_lines (\<lambda>s. s) None 0
     [demo_rec ''t0'' True, demo_rec ''t1'' False, demo_rec ''t2'' True])))"
  by (simp only: demo_log_def build_chain_content)

theorem deleted_entry_reports_declared_idx_witness:
  "''log.jsonl'' \<noteq> []
   \<and> inj_on (\<lambda>s :: string. s) {contentToHash (demo_rec ''t0'' True) None,
        contentToHash (demo_rec ''t1'' False) (Some (contentToHash (demo_rec ''t0'' True) None))}
   \<and> verify (\<lambda>s. s) (demo_log(''log.jsonl'' \<mapsto> delete_entry 1 (the (demo_log ''log.jsonl''))))
         (Some ''log.jsonl'') = ChainBreak (Some (JNum 2))"
proof -
  have p: "''log.jsonl'' \<noteq> []" by simp
  have c: "demo_log ''log.jsonl'' = Some (the (demo_log ''log.jsonl''))"
    by (simp only: demo_log_content option.sel)
  have i: "inj_on (\<lambda>s :: string. s) {contentToHash (demo_rec ''t0'' True) None,
        contentToHash (demo_rec ''t1'' False) (Some (contentToHash (demo_rec ''t0'' True) None))}"
    by (rule inj_on_id2)
  from deleted_entry_reports_declared_idx [OF p demo_log_def c i] p i show ?thesis by blast
qed

theorem deleted_entry_not_idx_1:
  "verify (\<lambda>s. s) (demo_log(''log.jsonl'' \<mapsto> delete_entry 1 (the (demo_log ''log.jsonl''))))
         (Some ''log.jsonl'') \<noteq> ChainBreak (Some (JNum 1))"
proof -
  have p: "''log.jsonl'' \<noteq> []" by simp
  have c: "demo_log ''log.jsonl'' = Some (the (demo_log ''log.jsonl''))"
    by (simp only: demo_log_content option.sel)
  have i: "inj_on (\<lambda>s :: string. s) {contentToHash (demo_rec ''t0'' True) None,
        contentToHash (demo_rec ''t1'' False) (Some (contentToHash (demo_rec ''t0'' True) None))}"
    by (rule inj_on_id2)
  have "verify (\<lambda>s. s) (demo_log(''log.jsonl'' \<mapsto> delete_entry 1 (the (demo_log ''log.jsonl''))))
         (Some ''log.jsonl'') = ChainBreak (Some (JNum 2))"
    by (rule deleted_entry_verdict [OF p demo_log_def c i])
  then show ?thesis by simp
qed

lemma mutated_log_verdict:
  assumes i: "i < length recs" and v: "js_wf v" and path: "path \<noteq> []"
    and fs1: "fs1 = build_chain sha256 fs path recs" and content: "fs1 path = Some content"
    and p_def: "p = chain_last sha256 None (take i recs)"
    and h_def: "h = sha256 (contentToHash (recs ! i) p)"
    and L_def: "L = line_props (recs ! i) (int i) p h"
  shows "k = ''idx'' \<Longrightarrow>
           verify sha256 (fs1(path \<mapsto> mutate_entry i k v content)) (Some path) = Ok (length recs)"
    and "k = ''prevHash'' \<Longrightarrow> v \<noteq> nullable p \<Longrightarrow>
           verify sha256 (fs1(path \<mapsto> mutate_entry i k v content)) (Some path) = ChainBreak (Some (JNum (int i)))"
    and "k = ''hash'' \<Longrightarrow> v \<noteq> JStr h \<Longrightarrow>
           verify sha256 (fs1(path \<mapsto> mutate_entry i k v content)) (Some path) = HashMismatch (Some (JNum (int i)))"
    and "k \<in> fst ` set (rec_obj (recs ! i)) \<Longrightarrow> obj_get L k = Some old \<Longrightarrow> v \<noteq> old \<Longrightarrow>
           inj_on sha256 {hash_input L p, hash_input (mutate_field L k v) p} \<Longrightarrow>
           verify sha256 (fs1(path \<mapsto> mutate_entry i k v content)) (Some path) = HashMismatch (Some (JNum (int i)))"
proof -
  define pre where "pre = map JSON_stringify (chain_lines sha256 None 0 (take i recs))"
  define post where "post = map JSON_stringify (chain_lines sha256 (Some h) (int i + 1) (drop (Suc i) recs))"
  let ?r = "recs ! i"
  let ?L' = "mutate_field L k v"
  have c: "content = log_text (map JSON_stringify (chain_lines sha256 None 0 recs))"
    using fs1 content by (simp add: build_chain_content)
  note ml = mutated_log_lines [OF i v p_def h_def L_def pre_def post_def c]
  have wf: "js_wf (JObj ?L')"
    unfolding L_def by (rule mutate_field_wf [OF line_props_wf v])
  have v1: "verify sha256 (fs1(path \<mapsto> c)) (Some path) = verify_content sha256 c" for c
    using path by (simp add: verify_def)
  have v2: "verify_content sha256 (mutate_entry i k v content)
      = (case verify_loop sha256 p (JSON_stringify (JObj ?L') # post) of
           Some failure \<Rightarrow> failure | None \<Rightarrow> Ok (length recs))"
    unfolding verify_content_def Let_def ml(2) ml(3) ml(5) ..
  note ver = v1 [of "mutate_entry i k v content", unfolded v2]
  note step = verify_loop_obj [OF wf, of sha256 p post]
  have keys: "fst ` set L = fst ` set (rec_obj ?r) \<union> {''idx'', ''prevHash'', ''hash''}"
    unfolding L_def line_props_def by auto
  have hi: "hash_input L p = contentToHash ?r p"
    unfolding L_def by (rule line_props_fields)
  have hi': "hash_input ?L' p = contentToHash ?r p" if "k \<notin> fst ` set (rec_obj ?r)"
    unfolding L_def hash_input_mutated mutate_field_absent [OF that] contentToHash_def hash_input_eq ..
  have get: "obj_get ?L' k' = (if k' = k then Some v else obj_get L k')" if "k \<in> fst ` set L" for k'
    using mutate_field_get_same [OF that, of v] mutate_field_get_other [of k' k L v] by auto
  have Lf: "obj_get L ''hash'' = Some (JStr h)" "obj_get L ''idx'' = Some (JNum (int i))"
    "obj_get L ''prevHash'' = Some (nullable p)"
    unfolding L_def by (rule line_props_fields)+
  {
    assume k: "k = ''idx''"
    then have kin: "k \<in> fst ` set L" and kr: "k \<notin> fst ` set (rec_obj ?r)"
      using keys rec_obj_keys_set(2) by auto
    show "verify sha256 (fs1(path \<mapsto> mutate_entry i k v content)) (Some path) = Ok (length recs)"
      unfolding ver step get [OF kin] hi' [OF kr] h_def [symmetric]
      by (simp add: k Lf ml(4))
  }
  {
    assume k: "k = ''prevHash''" and ne: "v \<noteq> nullable p"
    then have kin: "k \<in> fst ` set L" using keys by auto
    show "verify sha256 (fs1(path \<mapsto> mutate_entry i k v content)) (Some path) = ChainBreak (Some (JNum (int i)))"
      unfolding ver step get [OF kin]
      using ne by (simp add: k Lf)
  }
  {
    assume k: "k = ''hash''" and ne: "v \<noteq> JStr h"
    then have kin: "k \<in> fst ` set L" and kr: "k \<notin> fst ` set (rec_obj ?r)"
      using keys rec_obj_keys_set(4) by auto
    show "verify sha256 (fs1(path \<mapsto> mutate_entry i k v content)) (Some path) = HashMismatch (Some (JNum (int i)))"
      unfolding ver step get [OF kin] hi' [OF kr] h_def [symmetric]
      using ne by (auto simp: k Lf)
  }
  {
    assume k: "k \<in> fst ` set (rec_obj ?r)" and old: "obj_get L k = Some old" and ne: "v \<noteq> old"
      and inj: "inj_on sha256 {hash_input L p, hash_input (mutate_field L k v) p}"
    from k have kin: "k \<in> fst ` set L" using keys by auto
    from rec_obj_keys_set(1) [OF k] have kne: "k \<noteq> ''idx''" "k \<noteq> ''prevHash''" "k \<noteq> ''hash''" by simp_all
    have old': "obj_get (rec_obj ?r) k = Some old"
    proof -
      from k obtain w where w: "map_of (rec_obj ?r) k = Some w"
        by (metis map_of_eq_None_iff not_Some_eq)
      then have "obj_get L k = Some w"
        unfolding L_def line_props_def obj_get_def map_of_append by simp
      with old w show ?thesis by (simp add: obj_get_def)
    qed
    have "hash_input ?L' p \<noteq> hash_input L p"
      unfolding L_def by (rule mutated_content_changes_hash_input [OF k old' ne])
    with inj have "sha256 (hash_input ?L' p) \<noteq> sha256 (hash_input L p)"
      by (auto simp: inj_on_def)
    then have "sha256 (hash_input ?L' p) \<noteq> h" unfolding hi h_def .
    then show "verify sha256 (fs1(path \<mapsto> mutate_entry i k v content)) (Some path) = HashMismatch (Some (JNum (int i)))"
      unfolding ver step get [OF kin]
      using kne by (simp add: Lf)
  }
qed


lemma mutation_changes_file:
  assumes i: "i < length recs" and v: "js_wf v"
    and c: "content = log_text (map JSON_stringify (chain_lines sha256 None 0 recs))"
    and p_def: "p = chain_last sha256 None (take i recs)"
    and L_def: "L = line_props (recs ! i) (int i) p (sha256 (contentToHash (recs ! i) p))"
    and old: "obj_get L k = Some old" and ne: "v \<noteq> old"
  shows "JSON_parse (file_lines content ! i) = Inr (JObj L)"
    and "mutate_entry i k v content \<noteq> content"
proof -
  define h where "h = sha256 (contentToHash (recs ! i) p)"
  define pre where "pre = map JSON_stringify (chain_lines sha256 None 0 (take i recs))"
  define post where "post = map JSON_stringify (chain_lines sha256 (Some h) (int i + 1) (drop (Suc i) recs))"
  have L: "L = line_props (recs ! i) (int i) p h" unfolding h_def by (rule L_def)
  note ml = mutated_log_lines [OF i v p_def h_def L pre_def post_def c]
  have lp: "length pre = i" unfolding pre_def using i by (simp add: length_chain_lines)
  have wfL: "js_wf (JObj L)" unfolding L by (rule line_props_wf)
  show "JSON_parse (file_lines content ! i) = Inr (JObj L)"
    unfolding ml(1) nth_append_length [of pre, unfolded lp] by (rule JSON_parse_stringify [OF wfL])
  have kin: "k \<in> fst ` set L"
    using old unfolding obj_get_def by (metis map_of_eq_None_iff option.distinct(1))
  show "mutate_entry i k v content \<noteq> content"
  proof
    assume "mutate_entry i k v content = content"
    then have "file_lines (mutate_entry i k v content) = file_lines content" by simp
    then have "JSON_stringify (JObj (mutate_field L k v)) = JSON_stringify (JObj L)"
      unfolding ml(1) ml(2) by (simp del: JSON_stringify.simps)
    then have "JObj (mutate_field L k v) = JObj L"
      by (rule JSON_stringify_inj [OF mutate_field_wf [OF wfL v] wfL])
    then have "obj_get (mutate_field L k v) k = obj_get L k" by simp
    with mutate_field_get_same [OF kin, of v] old ne show False by simp
  qed
qed

lemma field_mutation_verdict:
  assumes path: "path \<noteq> []" and i: "i < length recs"
    and fs1: "fs1 = build_chain sha256 fs path recs" and content: "fs1 path = Some content"
    and p_def: "p = chain_last sha256 None (take i recs)"
    and L_def: "L = line_props (recs ! i) (int i) p (sha256 (contentToHash (recs ! i) p))"
    and old: "obj_get L k = Some old" and ne: "v \<noteq> old" and v: "js_wf v"
    and inj: "inj_on sha256 {hash_input L p, hash_input (mutate_field L k v) p}"
  shows "JSON_parse (file_lines content ! i) = Inr (JObj L)
         \<and> mutate_entry i k v content \<noteq> content
         \<and> verify sha256 (fs1(path \<mapsto> mutate_entry i k v content)) (Some path)
             = (if k = ''idx'' then Ok (length recs)
                else if k = ''prevHash'' then ChainBreak (Some (JNum (int i)))
                else HashMismatch (Some (JNum (int i))))"
proof -
  define h where "h = sha256 (contentToHash (recs ! i) p)"
  have L: "L = line_props (recs ! i) (int i) p h" unfolding h_def by (rule L_def)
  have c: "content = log_text (map JSON_stringify (chain_lines sha256 None 0 recs))"
    using fs1 content by (simp add: build_chain_content)
  note ch = mutation_changes_file [OF i v c p_def L_def old ne]
  note mv = mutated_log_verdict [OF i v path fs1 content p_def h_def L]
  have kin: "k \<in> fst ` set L"
    using old unfolding obj_get_def by (metis map_of_eq_None_iff option.distinct(1))
  have keys: "fst ` set L = fst ` set (rec_obj (recs ! i)) \<union> {''idx'', ''prevHash'', ''hash''}"
    unfolding L line_props_def by auto
  have Lf: "obj_get L ''hash'' = Some (JStr h)" "obj_get L ''prevHash'' = Some (nullable p)"
    unfolding L by (rule line_props_fields)+
  consider (idx) "k = ''idx''" | (prev) "k = ''prevHash''" | (hash) "k = ''hash''"
    | (field) "k \<in> fst ` set (rec_obj (recs ! i))"
    using kin keys by auto
  then have "verify sha256 (fs1(path \<mapsto> mutate_entry i k v content)) (Some path)
             = (if k = ''idx'' then Ok (length recs)
                else if k = ''prevHash'' then ChainBreak (Some (JNum (int i)))
                else HashMismatch (Some (JNum (int i))))"
  proof cases
    case idx
    with mv(1) show ?thesis by simp
  next
    case prev
    with old ne Lf have "v \<noteq> nullable p" by simp
    with mv(2) [OF prev] prev show ?thesis by simp
  next
    case hash
    with old ne Lf have "v \<noteq> JStr h" by simp
    with mv(3) [OF hash] hash show ?thesis by simp
  next
    case field
    from rec_obj_keys_set(1) [OF field] mv(4) [OF field old ne inj] show ?thesis by simp
  qed
  with ch show ?thesis by simp
qed

text \<open>
  C2, as the code has it. Take a log that the builder wrote, and replace the value of one
  field \<open>k\<close> of its entry \<open>i\<close> by a different value. The file changes. When \<open>k\<close> is
  \<open>idx\<close> the verifier still succeeds, for the builder leaves \<open>idx\<close> out of the hash input and
  the verifier never compares it. For every other field the verifier fails at that entry
  and names its idx: with a chain break when \<open>prevHash\<close> was changed, with a hash mismatch
  otherwise, provided the hash inputs of the entry before and after the change do not
  collide.
\<close>

theorem field_mutation_detected_except_idx:
  assumes "path \<noteq> []" and "i < length recs"
    and "fs1 = build_chain sha256 fs path recs" and "fs1 path = Some content"
    and "p = chain_last sha256 None (take i recs)"
    and "L = line_props (recs ! i) (int i) p (sha256 (contentToHash (recs ! i) p))"
    and "obj_get L k = Some old" and "v \<noteq> old" and "js_wf v"
    and "inj_on sha256 {hash_input L p, hash_input (mutate_field L k v) p}"
  shows "JSON_parse (file_lines content ! i) = Inr (JObj L)
         \<and> mutate_entry i k v content \<noteq> content
         \<and> verify sha256 (fs1(path \<mapsto> mutate_entry i k v content)) (Some path)
             = (if k = ''idx'' then Ok (length recs)
                else if k = ''prevHash'' then ChainBreak (Some (JNum (int i)))
                else HashMismatch (Some (JNum (int i))))"
  using assms by (rule field_mutation_verdict)

definition demo_recs :: "TaskAttestation list" where
  "demo_recs = [demo_rec ''t0'' True, demo_rec ''t1'' False, demo_rec ''t2'' True]"

definition demo_prev1 :: "string option" where
  "demo_prev1 = chain_last (\<lambda>s. s) None (take 1 demo_recs)"

definition demo_entry1 :: jsobject where
  "demo_entry1 = line_props (demo_recs ! 1) (int 1) demo_prev1 (contentToHash (demo_recs ! 1) demo_prev1)"

lemma demo_log_recs: "demo_log = build_chain (\<lambda>s. s) Map.empty ''log.jsonl'' demo_recs"
  by (simp only: demo_log_def demo_recs_def)

lemma demo_log_some: "demo_log ''log.jsonl'' = Some (the (demo_log ''log.jsonl''))"
  by (simp only: demo_log_content option.sel)

lemma demo_entry1_fields:
  "obj_get demo_entry1 ''idx'' = Some (JNum (int 1))"
  "obj_get demo_entry1 ''pass'' = Some (JBool False)"
proof -
  show "obj_get demo_entry1 ''idx'' = Some (JNum (int 1))"
    unfolding demo_entry1_def by (rule line_props_fields)
  show "obj_get demo_entry1 ''pass'' = Some (JBool False)"
    by (simp add: demo_entry1_def demo_recs_def demo_rec_def line_props_def rec_obj_def obj_get_def)
qed

theorem field_mutation_detected_except_idx_witness:
  "''log.jsonl'' \<noteq> [] \<and> 1 < length demo_recs
   \<and> obj_get demo_entry1 ''pass'' = Some (JBool False) \<and> JBool True \<noteq> JBool False \<and> js_wf (JBool True)
   \<and> inj_on (\<lambda>s :: string. s)
        {hash_input demo_entry1 demo_prev1, hash_input (mutate_field demo_entry1 ''pass'' (JBool True)) demo_prev1}
   \<and> verify (\<lambda>s. s)
         (demo_log(''log.jsonl'' \<mapsto> mutate_entry 1 ''pass'' (JBool True) (the (demo_log ''log.jsonl''))))
         (Some ''log.jsonl'') = HashMismatch (Some (JNum 1))"
proof -
  have p: "''log.jsonl'' \<noteq> []" by simp
  have i: "1 < length demo_recs" by (simp add: demo_recs_def)
  have ne: "JBool True \<noteq> JBool False" by simp
  have wf: "js_wf (JBool True)" by simp
  have inj: "inj_on (\<lambda>s :: string. s)
        {hash_input demo_entry1 demo_prev1, hash_input (mutate_field demo_entry1 ''pass'' (JBool True)) demo_prev1}"
    by (rule inj_on_id2)
  from field_mutation_detected_except_idx [OF p i demo_log_recs demo_log_some demo_prev1_def
      demo_entry1_def demo_entry1_fields(2) ne wf inj]
  have "verify (\<lambda>s. s)
         (demo_log(''log.jsonl'' \<mapsto> mutate_entry 1 ''pass'' (JBool True) (the (demo_log ''log.jsonl''))))
         (Some ''log.jsonl'') = HashMismatch (Some (JNum 1))"
    by simp
  with p i demo_entry1_fields(2) ne wf inj show ?thesis by blast
qed

theorem idx_mutation_undetected:
  "mutate_entry 1 ''idx'' (JNum 7) (the (demo_log ''log.jsonl'')) \<noteq> the (demo_log ''log.jsonl'')
   \<and> verify (\<lambda>s. s)
         (demo_log(''log.jsonl'' \<mapsto> mutate_entry 1 ''idx'' (JNum 7) (the (demo_log ''log.jsonl''))))
         (Some ''log.jsonl'') = Ok 3"
proof -
  have p: "''log.jsonl'' \<noteq> []" by simp
  have i: "1 < length demo_recs" by (simp add: demo_recs_def)
  have ne: "JNum 7 \<noteq> JNum (int 1)" by simp
  have wf: "js_wf (JNum 7)" by simp
  have inj: "inj_on (\<lambda>s :: string. s)
        {hash_input demo_entry1 demo_prev1, hash_input (mutate_field demo_entry1 ''idx'' (JNum 7)) demo_prev1}"
    by (rule inj_on_id2)
  from field_mutation_verdict [OF p i demo_log_recs demo_log_some demo_prev1_def
      demo_entry1_def demo_entry1_fields(1) ne wf inj]
  show ?thesis by (simp add: demo_recs_def)
qed

section \<open>The digest and the order of keys\<close>

text \<open>
  Two values that are equal up to the order of the properties of their objects: equal
  scalars, arrays with related elements at the same positions, and objects with the same
  keys, each with related values.
\<close>

function (sequential) key_order_equiv :: "json \<Rightarrow> json \<Rightarrow> bool" where
  "key_order_equiv (JArr xs) (JArr ys) =
     (length xs = length ys \<and> list_all (\<lambda>i. key_order_equiv (xs ! i) (ys ! i)) [0..<length xs])"
| "key_order_equiv (JObj kvs) (JObj kvs') =
     (distinct (map fst kvs) \<and> distinct (map fst kvs') \<and> set (map fst kvs) = set (map fst kvs')
      \<and> list_all (\<lambda>kv. case obj_get kvs' (fst kv) of
                            Some v' \<Rightarrow> key_order_equiv (snd kv) v'
                          | None \<Rightarrow> False) kvs)"
| "key_order_equiv v w = (v = w)"
  by pat_completeness auto
termination
proof (relation "measure (\<lambda>(v, w). size v)", goal_cases)
  case 1
  show ?case by simp
next
  case (2 xs ys i)
  then show ?case using size_arr_member [of "xs ! i" xs] by simp
next
  case (3 kvs kvs' kv v')
  then show ?case using size_obj_member [of "fst kv" "snd kv" kvs] by simp
qed

lemma sort_keys_eq:
  "distinct ks \<Longrightarrow> distinct ks' \<Longrightarrow> set ks = set ks' \<Longrightarrow> sort ks = sort (ks' :: string list)"
  by (metis sorted_list_of_set_sort_remdups distinct_remdups_id)

lemma key_order_sortObj: "key_order_equiv v w \<Longrightarrow> sortObj v = sortObj w"
proof (induction v w rule: key_order_equiv.induct)
  case (1 xs ys)
  then have len: "length xs = length ys"
    and el: "\<And>i. i < length xs \<Longrightarrow> sortObj (xs ! i) = sortObj (ys ! i)"
    by (auto simp: list_all_iff)
  have "map sortObj xs = map sortObj ys"
    by (rule nth_equalityI) (simp_all add: len el [unfolded len] el)
  then show ?case by simp
next
  case (2 kvs kvs')
  from "2.prems" have d: "distinct (map fst kvs)" "distinct (map fst kvs')"
    and ks: "set (map fst kvs) = set (map fst kvs')"
    and el: "\<And>kv. kv \<in> set kvs \<Longrightarrow>
        (case obj_get kvs' (fst kv) of Some v' \<Rightarrow> key_order_equiv (snd kv) v' | None \<Rightarrow> False)"
    by (auto simp: list_all_iff)
  have s: "sort (obj_keys kvs) = sort (obj_keys kvs')"
    unfolding obj_keys_def by (rule sort_keys_eq [OF d ks])
  have step: "(case obj_get kvs k of Some v \<Rightarrow> obj_assign acc k (sortObj v) | None \<Rightarrow> acc)
            = (case obj_get kvs' k of Some v \<Rightarrow> obj_assign acc k (sortObj v) | None \<Rightarrow> acc)"
    if k: "k \<in> set (sort (obj_keys kvs))" for acc k
  proof -
    from k obtain v where kv: "(k, v) \<in> set kvs" by (auto simp: obj_keys_def)
    with d(1) have g: "obj_get kvs k = Some v" by (simp add: obj_get_def)
    from el [OF kv] obtain v' where g': "obj_get kvs' k = Some v'" and e: "key_order_equiv v v'"
      by (auto split: option.splits)
    from "2.IH" [of "(k, v)" v'] kv g' e
    have "sortObj v = sortObj v'" by simp
    with g g' show ?thesis by simp
  qed
  have "foldl (\<lambda>acc k. case obj_get kvs k of Some v \<Rightarrow> obj_assign acc k (sortObj v) | None \<Rightarrow> acc) []
          (sort (obj_keys kvs))
      = foldl (\<lambda>acc k. case obj_get kvs' k of Some v \<Rightarrow> obj_assign acc k (sortObj v) | None \<Rightarrow> acc) []
          (sort (obj_keys kvs))"
    by (rule foldl_cong) (simp_all add: step)
  then show ?case by (simp add: s)
qed simp_all


text \<open>
  C5: two values that are equal up to the order of the properties of their objects, at any
  depth, have the same canonical string and so the same digest. The elements of an array
  keep their order: the canonical string of an array lists the canonical strings of its
  elements in sequence, and two arrays have the same canonical string exactly when their
  elements have the same canonical forms position by position.
\<close>

theorem digest_ignores_key_order:
  "(key_order_equiv v w \<longrightarrow> stable v = stable w \<and> digest sha256 v = digest sha256 w)
   \<and> sortObj (JArr xs) = JArr (map sortObj xs)
   \<and> stable (JArr xs) = ''['' @ join '','' (map stable xs) @ '']''
   \<and> (stable (JArr xs) = stable (JArr ys) \<longleftrightarrow> map sortObj xs = map sortObj ys)"
proof -
  have 1: "key_order_equiv v w \<longrightarrow> stable v = stable w \<and> digest sha256 v = digest sha256 w"
    using key_order_sortObj [of v w] by (simp add: stable_def digest_def)
  have 2: "stable (JArr xs) = ''['' @ join '','' (map stable xs) @ '']''"
    by (simp add: stable_def [abs_def] comp_def)
  have 3: "stable (JArr xs) = stable (JArr ys) \<longleftrightarrow> map sortObj xs = map sortObj ys"
    unfolding stable_eq_iff by simp
  from 1 2 3 show ?thesis by simp
qed

definition demo_value :: json where
  "demo_value = JObj [(''a'', JNum 1), (''b'', JArr [JObj [(''y'', JNull), (''x'', JBool True)]])]"

definition demo_value' :: json where
  "demo_value' = JObj [(''b'', JArr [JObj [(''x'', JBool True), (''y'', JNull)]]), (''a'', JNum 1)]"

lemma demo_values_equiv: "key_order_equiv demo_value demo_value'"
  by code_simp

theorem digest_ignores_key_order_witness:
  "key_order_equiv demo_value demo_value' \<and> demo_value \<noteq> demo_value'
   \<and> stable demo_value = stable demo_value'
   \<and> digest (\<lambda>s. s) demo_value = digest (\<lambda>s. s) demo_value'
   \<and> stable (JArr [JNum 1, JNum 2]) \<noteq> stable (JArr [JNum 2, JNum 1])"
proof -
  note t = digest_ignores_key_order [of demo_value demo_value' "\<lambda>s. s" "[JNum 1, JNum 2]" "[JNum 2, JNum 1]"]
  from t demo_values_equiv have s: "stable demo_value = stable demo_value'"
    and d: "digest (\<lambda>s. s) demo_value = digest (\<lambda>s. s) demo_value'" by blast+
  have ne: "demo_value \<noteq> demo_value'"
    by (simp add: demo_value_def demo_value'_def)
  have "map sortObj [JNum 1, JNum 2] \<noteq> map sortObj [JNum 2, JNum 1]" by simp
  with t have arr: "stable (JArr [JNum 1, JNum 2]) \<noteq> stable (JArr [JNum 2, JNum 1])" by blast
  from demo_values_equiv ne s d arr show ?thesis by blast
qed

section \<open>Empty files and empty lines\<close>













text \<open>A line that holds a space is not empty: it is read and parsed as an entry.\<close>

lemma space_line_is_an_entry:
  "file_lines (''{}'' @ [CHR 0x0A] @ '' '' @ [CHR 0x0A] @ ''{}'') = [''{}'', '' '', ''{}'']"
  "JSON_parse '' '' = Inl SyntaxError"
  by code_simp+

end
